theory Spec2Isabelle
  imports Main
begin

section \<open>JavaScript values\<close>

text \<open>
  Objects are referred to by address, so that two references are equal exactly when they
  denote the same object. Numbers are the integers and \<open>NaN\<close> (the only numbers the
  subscription code computes with are edge tags and array indices).
\<close>

type_synonym addr = nat

datatype jsval =
    JUndefined
  | JNull
  | JBool bool
  | JNum int
  | JNaN
  | JStr string
  | JRef addr

text \<open>Truthiness, as tested by \<^verbatim>\<open>if (x)\<close>, \<^verbatim>\<open>!x\<close> and \<^verbatim>\<open>a && b\<close>.\<close>

fun truthy :: "jsval \<Rightarrow> bool" where
  "truthy JUndefined = False"
| "truthy JNull = False"
| "truthy (JBool b) = b"
| "truthy (JNum n) = (n \<noteq> 0)"
| "truthy JNaN = False"
| "truthy (JStr s) = (s \<noteq> [])"
| "truthy (JRef a) = True"

text \<open>\<^verbatim>\<open>a === b\<close>: equality of values, except that \<open>NaN\<close> is not equal to itself.\<close>

definition strict_eq :: "jsval \<Rightarrow> jsval \<Rightarrow> bool" where
  "strict_eq a b = (a = b \<and> a \<noteq> JNaN)"

text \<open>\<^verbatim>\<open>xs[i]\<close> on an array: reading past the end gives \<^verbatim>\<open>undefined\<close>.\<close>

definition idx :: "jsval list \<Rightarrow> nat \<Rightarrow> jsval" where
  "idx xs i = (if i < length xs then xs ! i else JUndefined)"

text \<open>An optional string argument or result (\<^verbatim>\<open>string | undefined\<close>) as a value.\<close>

fun opt_val :: "string option \<Rightarrow> jsval" where
  "opt_val None = JUndefined"
| "opt_val (Some s) = JStr s"

subsection \<open>Numbers and strings\<close>

definition digit_char :: "nat \<Rightarrow> char" where
  "digit_char d = ''0123456789'' ! (d mod 10)"

fun nat_str :: "nat \<Rightarrow> string" where
  "nat_str n = (if n < 10 then [digit_char n] else nat_str (n div 10) @ [digit_char (n mod 10)])"

declare nat_str.simps [simp del]

definition num_str :: "int \<Rightarrow> string" where
  "num_str n = (if n < 0 then CHR ''-'' # nat_str (nat (- n)) else nat_str (nat n))"

text \<open>
  String conversion, as done by \<^verbatim>\<open>+\<close> with a string and by a template literal. The
  positions converted by the subscription code hold a number (the tag) or a string (the
  property and the key) by their declared types; an object converts as a plain object does.
\<close>

fun ToString :: "jsval \<Rightarrow> string" where
  "ToString JUndefined = ''undefined''"
| "ToString JNull = ''null''"
| "ToString (JBool b) = (if b then ''true'' else ''false'')"
| "ToString (JNum n) = num_str n"
| "ToString JNaN = ''NaN''"
| "ToString (JStr s) = s"
| "ToString (JRef a) = ''[object Object]''"

text \<open>
  \<^verbatim>\<open>type <= k\<close> for the tag of an edge, which is a number by the declared tuple types
  (and by \<^verbatim>\<open>parseInt\<close> on decoding); \<open>NaN\<close> compares false, and so does any value that
  is not a number.
\<close>

fun js_le :: "jsval \<Rightarrow> int \<Rightarrow> bool" where
  "js_le (JNum n) k = (n \<le> k)"
| "js_le _ k = False"

text \<open>\<^verbatim>\<open>s.split(' ')\<close>: every single space separates; the empty string gives one empty part.\<close>

fun str_split :: "string \<Rightarrow> string list" where
  "str_split [] = [[]]"
| "str_split (c # cs) =
     (if c = CHR '' '' then [] # str_split cs
      else (case str_split cs of [] \<Rightarrow> [[c]] | p # ps \<Rightarrow> (c # p) # ps))"

text \<open>\<^verbatim>\<open>parts[i]\<close> on an array of strings: \<open>None\<close> is \<^verbatim>\<open>undefined\<close>.\<close>

definition part :: "string list \<Rightarrow> nat \<Rightarrow> string option" where
  "part parts i = (if i < length parts then Some (parts ! i) else None)"

text \<open>
  \<^verbatim>\<open>parseInt(s, 10)\<close>: leading white space is skipped, then an optional sign, then the
  longest run of decimal digits; no digit gives \<open>NaN\<close> (here \<open>None\<close>).
\<close>

definition isWhiteSpace :: "char \<Rightarrow> bool" where
  "isWhiteSpace c = (of_char c \<in> {9, 10, 11, 12, 13, 32, 160 :: nat})"

definition isDigit :: "char \<Rightarrow> bool" where
  "isDigit c = (48 \<le> (of_char c :: nat) \<and> (of_char c :: nat) \<le> 57)"

definition digits_val :: "string \<Rightarrow> nat" where
  "digits_val ds = foldl (\<lambda>a c. 10 * a + (of_char c - 48)) 0 ds"

definition parseInt :: "string \<Rightarrow> int option" where
  "parseInt s =
     (let s1 = dropWhile isWhiteSpace s;
          neg = (case s1 of [] \<Rightarrow> False | c # r \<Rightarrow> c = CHR ''-'');
          s2 = (case s1 of [] \<Rightarrow> [] | c # r \<Rightarrow> if c = CHR ''-'' \<or> c = CHR ''+'' then r else s1);
          ds = takeWhile isDigit s2
      in if ds = [] then None
         else Some (if neg then - int (digits_val ds) else int (digits_val ds)))"

fun num_val :: "int option \<Rightarrow> jsval" where
  "num_val None = JNaN"
| "num_val (Some n) = JNum n"

section \<open>The subscription codec\<close>

text \<open>
  A subscription edge is a JavaScript array: \<^verbatim>\<open>[0, host, key]\<close>,
  \<^verbatim>\<open>[1|2, host, signal, elm, prop, key]\<close> or \<^verbatim>\<open>[3|4, host, signal, elm, key]\<close>.

  The codec uses functions that are defined elsewhere: the
  built-ins \<^verbatim>\<open>encodeURI\<close> and \<^verbatim>\<open>decodeURI\<close> (which throw \<^verbatim>\<open>URIError\<close>, here
  \<open>None\<close>), and \<^verbatim>\<open>isSubscriberDescriptor\<close> with the \<^verbatim>\<open>$el$\<close> field of a descriptor.
  They are parameters of the model.
\<close>

record runtime =
  encodeURI :: "string \<Rightarrow> string option"
  decodeURI :: "string \<Rightarrow> string option"
  isSubscriberDescriptor :: "jsval \<Rightarrow> bool"
  el :: "jsval \<Rightarrow> jsval"

datatype error =
    MustBeNonNull
  | AssertFail string
  | URIError
  | QError_verifySerializable jsval
  | CreateError string

text \<open>\<^verbatim>\<open>must(a)\<close>: throws when \<^verbatim>\<open>a == null\<close>.\<close>

fun must :: "'a option \<Rightarrow> error + 'a" where
  "must None = Inl MustBeNonNull"
| "must (Some a) = Inr a"

text \<open>
  Modelled from the spec: \<^verbatim>\<open>assertTrue\<close> and \<^verbatim>\<open>assertFail\<close> of \<^verbatim>\<open>../error/assert\<close>
  are not among the sources; a violated assertion is a hard error that stops the call.
\<close>

definition assertTrue :: "bool \<Rightarrow> string \<Rightarrow> (error + 'a) \<Rightarrow> error + 'a" where
  "assertTrue b text k = (if b then k else Inl (AssertFail text))"

text \<open>The tail of \<^verbatim>\<open>serializeSubscription\<close>: the key is appended when it is truthy.\<close>

definition append_key :: "runtime \<Rightarrow> string \<Rightarrow> jsval \<Rightarrow> error + string option" where
  "append_key rt base key =
     (if truthy key then
        (case encodeURI rt (ToString key) of
           None \<Rightarrow> Inl URIError
         | Some e \<Rightarrow> Inr (Some (base @ '' '' @ e)))
      else Inr (Some base))"

text \<open>\<^verbatim>\<open>typeof v === 'string' ? v : getObjId(v)\<close>\<close>

definition id_of :: "(jsval \<Rightarrow> string option) \<Rightarrow> jsval \<Rightarrow> string option" where
  "id_of getObjId v = (case v of JStr s \<Rightarrow> Some s | _ \<Rightarrow> getObjId v)"

definition serializeSubscription ::
  "runtime \<Rightarrow> jsval list \<Rightarrow> (jsval \<Rightarrow> string option) \<Rightarrow> error + string option" where
  "serializeSubscription rt sub getObjId =
     (let type = idx sub 0
      in case id_of getObjId (idx sub 1) of
           None \<Rightarrow> Inr None
         | Some host \<Rightarrow>
             if host = [] then Inr None
             else
               let base = ToString type @ '' '' @ host
               in if strict_eq type (JNum 0) then append_key rt base (idx sub 2)
                  else
                    (case getObjId (idx sub 2) of
                       None \<Rightarrow> Inr None
                     | Some signalID \<Rightarrow>
                         if signalID = [] then Inr None
                         else if js_le type 2 then
                           (case must (getObjId (idx sub 3)) of
                              Inl e \<Rightarrow> Inl e
                            | Inr elmID \<Rightarrow>
                                append_key rt
                                  (base @ '' '' @ signalID @ '' '' @ elmID @ '' '' @ ToString (idx sub 4))
                                  (idx sub 5))
                         else if js_le type 4 then
                           (case (case idx sub 3 of JStr s \<Rightarrow> Inr s | v \<Rightarrow> must (getObjId v)) of
                              Inl e \<Rightarrow> Inl e
                            | Inr nodeID \<Rightarrow>
                                append_key rt (base @ '' '' @ signalID @ '' '' @ nodeID) (idx sub 4))
                         else Inl (AssertFail ''Should not get here'')))"

text \<open>\<^verbatim>\<open>safeDecode\<close>: \<^verbatim>\<open>undefined\<close> stays \<^verbatim>\<open>undefined\<close>, a string is URI-decoded.\<close>

fun safeDecode :: "runtime \<Rightarrow> string option \<Rightarrow> error + jsval" where
  "safeDecode rt None = Inr JUndefined"
| "safeDecode rt (Some s) = (case decodeURI rt s of None \<Rightarrow> Inl URIError | Some k \<Rightarrow> Inr (JStr k))"

text \<open>The argument of \<^verbatim>\<open>getObject\<close> when the part is missing is \<^verbatim>\<open>undefined\<close>;
  within the asserted arities every part that is resolved exists.\<close>

definition resolve :: "(string \<Rightarrow> jsval) \<Rightarrow> string option \<Rightarrow> jsval" where
  "resolve getObject p = (case p of None \<Rightarrow> JUndefined | Some s \<Rightarrow> getObject s)"

definition parseSubscription ::
  "runtime \<Rightarrow> string \<Rightarrow> (string \<Rightarrow> jsval) \<Rightarrow> error + jsval list option" where
  "parseSubscription rt sub getObject =
     (let parts = str_split sub;
          type = num_val (parseInt (case part parts 0 of None \<Rightarrow> ''undefined'' | Some p \<Rightarrow> p))
      in assertTrue (length parts \<ge> 2) ''At least 2 parts''
          (let host = resolve getObject (part parts 1)
           in if \<not> truthy host then Inr None
              else if isSubscriberDescriptor rt host \<and> \<not> truthy (el rt host) then Inr None
              else
                let subscription = [type, host]
                in if strict_eq type (JNum 0) then
                     assertTrue (length parts \<le> 3) ''Max 3 parts''
                       (case safeDecode rt (part parts 2) of
                          Inl e \<Rightarrow> Inl e
                        | Inr key \<Rightarrow> Inr (Some (subscription @ [key])))
                   else if js_le type 2 then
                     assertTrue (length parts = 5 \<or> length parts = 6) ''Type 1 has 5''
                       (case safeDecode rt (part parts 5) of
                          Inl e \<Rightarrow> Inl e
                        | Inr key \<Rightarrow>
                            Inr (Some (subscription @
                              [resolve getObject (part parts 2), resolve getObject (part parts 3),
                               opt_val (part parts 4), key])))
                   else if js_le type 4 then
                     assertTrue (length parts = 4 \<or> length parts = 5) ''Type 2 has 4''
                       (case safeDecode rt (part parts 4) of
                          Inl e \<Rightarrow> Inl e
                        | Inr key \<Rightarrow>
                            Inr (Some (subscription @
                              [resolve getObject (part parts 2), resolve getObject (part parts 3), key])))
                   else Inr (Some subscription)))"


section \<open>The subscription manager\<close>

text \<open>
  The state of one container: the group index \<^verbatim>\<open>$groupToManagers$\<close>, a \<^verbatim>\<open>Map\<close> from a
  group to an array of managers, and the \<^verbatim>\<open>$subs$\<close> array of every
  \<^verbatim>\<open>LocalSubscriptionManager\<close>. Managers and manager arrays are objects, held in stores
  indexed by address, so that truncating an array is seen through every reference to it.
  \<^verbatim>\<open>notifyChange\<close> is external; the edges it is called with are logged in call order.
\<close>

record container =
  groupToManagers :: "jsval \<rightharpoonup> addr"
  arrays :: "addr \<Rightarrow> addr list"
  nextArray :: addr
  subs :: "addr \<Rightarrow> jsval list list"
  nextManager :: addr
  notifyChange :: "jsval list list"

definition createSubscriptionManager :: container where
  "createSubscriptionManager =
     \<lparr>groupToManagers = Map.empty, arrays = (\<lambda>a. []), nextArray = 0,
      subs = (\<lambda>m. []), nextManager = 0, notifyChange = []\<rparr>"

definition addToGroup :: "jsval \<Rightarrow> addr \<Rightarrow> container \<Rightarrow> container" where
  "addToGroup grp manager s =
     (let s1 = (case groupToManagers s grp of
                  Some a \<Rightarrow> s
                | None \<Rightarrow>
                    s\<lparr>groupToManagers := (groupToManagers s)(grp \<mapsto> nextArray s),
                      arrays := (arrays s)(nextArray s := []),
                      nextArray := Suc (nextArray s)\<rparr>);
          managers = (case groupToManagers s grp of Some a \<Rightarrow> a | None \<Rightarrow> nextArray s)
      in if manager \<in> set (arrays s1 managers) then s1
         else s1\<lparr>arrays := (arrays s1)(managers := arrays s1 managers @ [manager])\<rparr>)"

definition addSubs :: "addr \<Rightarrow> jsval list list \<Rightarrow> container \<Rightarrow> container" where
  "addSubs this new s =
     (let s1 = s\<lparr>subs := (subs s)(this := subs s this @ new)\<rparr>
      in fold (\<lambda>sub. addToGroup (idx sub 1) this) (subs s1 this) s1)"

text \<open>\<^verbatim>\<open>$createManager$\<close>: the constructor allocates the manager with an empty \<^verbatim>\<open>$subs$\<close>.\<close>

definition createManager :: "jsval list list option \<Rightarrow> container \<Rightarrow> addr \<times> container" where
  "createManager initialMap s =
     (let this = nextManager s;
          s1 = s\<lparr>subs := (subs s)(this := []), nextManager := Suc this\<rparr>
      in (this, case initialMap of None \<Rightarrow> s1 | Some m \<Rightarrow> addSubs this m s1))"

text \<open>
  The loop shared by \<^verbatim>\<open>$unsubGroup$\<close> and \<^verbatim>\<open>$unsubEntry$\<close>:
  \<^verbatim>\<open>for (i = 0; i < subs.length; i++) if (found) { subs.splice(i, 1); i--; }\<close>.
  After a removal \<^verbatim>\<open>i--\<close> and \<^verbatim>\<open>i++\<close> leave the index where it was.
\<close>

function splice_loop :: "(jsval list \<Rightarrow> bool) \<Rightarrow> nat \<Rightarrow> jsval list list \<Rightarrow> jsval list list" where
  "splice_loop found i ss =
     (if i < length ss then
        (if found (ss ! i) then splice_loop found i (take i ss @ drop (Suc i) ss)
         else splice_loop found (Suc i) ss)
      else ss)"
  by pat_completeness auto
termination
  by (relation "measure (\<lambda>(found, i, ss). length ss - i)") auto

declare splice_loop.simps [simp del]

definition unsubGroup :: "addr \<Rightarrow> jsval \<Rightarrow> container \<Rightarrow> container" where
  "unsubGroup this grp s =
     s\<lparr>subs := (subs s)(this := splice_loop (\<lambda>sub. strict_eq (idx sub 1) grp) 0 (subs s this))\<rparr>"

definition unsubEntry :: "addr \<Rightarrow> jsval list \<Rightarrow> container \<Rightarrow> container" where
  "unsubEntry this entry s =
     (let type = idx entry 0; grp = idx entry 1; signal = idx entry 2; elm = idx entry 3
      in if strict_eq type (JNum 1) \<or> strict_eq type (JNum 2) then
           (let prop = idx entry 4
            in s\<lparr>subs := (subs s)(this :=
                 splice_loop (\<lambda>sub. strict_eq (idx sub 0) type \<and> strict_eq (idx sub 1) grp \<and>
                                    strict_eq (idx sub 2) signal \<and> strict_eq (idx sub 3) elm \<and>
                                    strict_eq (idx sub 4) prop) 0 (subs s this))\<rparr>)
         else if strict_eq type (JNum 3) \<or> strict_eq type (JNum 4) then
           s\<lparr>subs := (subs s)(this :=
              splice_loop (\<lambda>sub. strict_eq (idx sub 0) type \<and> strict_eq (idx sub 1) grp \<and>
                                 strict_eq (idx sub 2) signal \<and> strict_eq (idx sub 3) elm) 0
                (subs s this))\<rparr>
         else s)"

definition addSub :: "addr \<Rightarrow> jsval list \<Rightarrow> string option \<Rightarrow> container \<Rightarrow> container" where
  "addSub this sub key s =
     (let grp = idx sub 1
      in if strict_eq (idx sub 0) (JNum 0) \<and>
            list_ex (\<lambda>e. strict_eq (idx e 0) (JNum 0) \<and> strict_eq (idx e 1) grp \<and>
                         strict_eq (idx e 2) (opt_val key)) (subs s this)
         then s
         else addToGroup grp this
                (s\<lparr>subs := (subs s)(this := subs s this @ [sub @ [opt_val key]])\<rparr>))"

text \<open>The loop of \<^verbatim>\<open>$notifySubs$\<close>, with the calls of \<^verbatim>\<open>notifyChange\<close> made so far.\<close>

fun notify_loop :: "jsval \<Rightarrow> jsval list list \<Rightarrow> jsval list list \<Rightarrow> jsval list list" where
  "notify_loop key [] calls = calls"
| "notify_loop key (sub # rest) calls =
     (let compare = idx sub (length sub - 1)
      in if truthy key \<and> truthy compare \<and> \<not> strict_eq compare key then notify_loop key rest calls
         else notify_loop key rest (calls @ [sub]))"

definition notifySubs :: "addr \<Rightarrow> string option \<Rightarrow> container \<Rightarrow> container" where
  "notifySubs this key s = s\<lparr>notifyChange := notify_loop (opt_val key) (subs s this) (notifyChange s)\<rparr>"

definition clearSub :: "jsval \<Rightarrow> container \<Rightarrow> container" where
  "clearSub grp s =
     (case groupToManagers s grp of
        None \<Rightarrow> s
      | Some managers \<Rightarrow>
          (let s1 = fold (\<lambda>manager. unsubGroup manager grp) (arrays s managers) s
           in s1\<lparr>groupToManagers := (groupToManagers s1)(grp := None),
                 arrays := (arrays s1)(managers := [])\<rparr>))"

definition clearSignal :: "jsval list \<Rightarrow> container \<Rightarrow> container" where
  "clearSignal signal s =
     (case groupToManagers s (idx signal 1) of
        None \<Rightarrow> s
      | Some managers \<Rightarrow> fold (\<lambda>manager. unsubEntry manager signal) (arrays s managers) s)"

text \<open>
  The states of a container: every manager comes from \<^verbatim>\<open>$createManager$\<close>, a
  \<^verbatim>\<open>Subscriber\<close> given to \<^verbatim>\<open>$addSub$\<close> has at least its tag and its host, and a group
  is an object (\<^verbatim>\<open>SubscriberHost | SubscriberEffect | Node\<close>), in particular not \<open>NaN\<close>.
\<close>

inductive reachable :: "container \<Rightarrow> bool" where
  r_init: "reachable createSubscriptionManager"
| r_createManager: "reachable s \<Longrightarrow> reachable (snd (createManager initialMap s))"
| r_addSubs: "reachable s \<Longrightarrow> this < nextManager s \<Longrightarrow> reachable (addSubs this new s)"
| r_addSub: "reachable s \<Longrightarrow> this < nextManager s \<Longrightarrow> 2 \<le> length sub \<Longrightarrow>
     reachable (addSub this sub key s)"
| r_unsubGroup: "reachable s \<Longrightarrow> this < nextManager s \<Longrightarrow> reachable (unsubGroup this grp s)"
| r_unsubEntry: "reachable s \<Longrightarrow> this < nextManager s \<Longrightarrow> reachable (unsubEntry this entry s)"
| r_notifySubs: "reachable s \<Longrightarrow> this < nextManager s \<Longrightarrow> reachable (notifySubs this key s)"
| r_clearSub: "reachable s \<Longrightarrow> grp \<noteq> JNaN \<Longrightarrow> reachable (clearSub grp s)"
| r_clearSignal: "reachable s \<Longrightarrow> reachable (clearSignal signal s)"


section \<open>Serializability\<close>

text \<open>
  The heap holds the objects, an address being an index into it. An object has a kind,
  which decides \<^verbatim>\<open>typeof\<close>, \<^verbatim>\<open>isPromise\<close>, \<^verbatim>\<open>isNode\<close>, \<^verbatim>\<open>isArray\<close> and
  \<^verbatim>\<open>isSerializableObject\<close> (helpers that are not among the sources), and the value of
  its \<^verbatim>\<open>QOjectTargetSymbol\<close> property, which a store proxy answers with its target
  (\<^verbatim>\<open>undefined\<close> on any other object). An array is the list of its slots up to its
  length, \<open>None\<close> being a hole: an index that was never assigned. A plain object (one
  whose prototype is \<^verbatim>\<open>Object.prototype\<close> or \<^verbatim>\<open>null\<close>) is the list of its entries.
\<close>

datatype jskind =
    KArray "jsval option list"
  | KObject "(string \<times> jsval) list"
  | KPromise
  | KNode
  | KInstance string
  | KFunction string string

record jsobj =
  kind :: jskind
  proxyTarget :: jsval

type_synonym heap = "jsobj list"

text \<open>An address beyond the heap denotes no value of the program; it is read as an
  instance of an unnamed class.\<close>

definition obj_at :: "heap \<Rightarrow> addr \<Rightarrow> jsobj" where
  "obj_at h a = (if a < length h then h ! a else \<lparr>kind = KInstance [], proxyTarget = JUndefined\<rparr>)"

fun js_typeof :: "heap \<Rightarrow> jsval \<Rightarrow> string" where
  "js_typeof h JUndefined = ''undefined''"
| "js_typeof h JNull = ''object''"
| "js_typeof h (JBool b) = ''boolean''"
| "js_typeof h (JNum n) = ''number''"
| "js_typeof h JNaN = ''number''"
| "js_typeof h (JStr s) = ''string''"
| "js_typeof h (JRef a) = (case kind (obj_at h a) of KFunction n src \<Rightarrow> ''function'' | _ \<Rightarrow> ''object'')"

definition isObject :: "heap \<Rightarrow> jsval \<Rightarrow> bool" where
  "isObject h v = (truthy v \<and> js_typeof h v = ''object'')"

definition isFunction :: "heap \<Rightarrow> jsval \<Rightarrow> bool" where
  "isFunction h v = (js_typeof h v = ''function'')"

fun isPromise :: "heap \<Rightarrow> jsval \<Rightarrow> bool" where
  "isPromise h (JRef a) = (kind (obj_at h a) = KPromise)"
| "isPromise h _ = False"

fun isNode :: "heap \<Rightarrow> jsval \<Rightarrow> bool" where
  "isNode h (JRef a) = (kind (obj_at h a) = KNode)"
| "isNode h _ = False"

fun isArray :: "heap \<Rightarrow> jsval \<Rightarrow> bool" where
  "isArray h (JRef a) = (case kind (obj_at h a) of KArray xs \<Rightarrow> True | _ \<Rightarrow> False)"
| "isArray h _ = False"

fun isSerializableObject :: "heap \<Rightarrow> jsval \<Rightarrow> bool" where
  "isSerializableObject h (JRef a) = (case kind (obj_at h a) of KObject es \<Rightarrow> True | _ \<Rightarrow> False)"
| "isSerializableObject h _ = False"

text \<open>The slots of an array and \<^verbatim>\<open>Object.entries\<close> of a plain object.\<close>

fun slots :: "heap \<Rightarrow> jsval \<Rightarrow> jsval option list" where
  "slots h (JRef a) = (case kind (obj_at h a) of KArray xs \<Rightarrow> xs | _ \<Rightarrow> [])"
| "slots h _ = []"

fun entries :: "heap \<Rightarrow> jsval \<Rightarrow> (string \<times> jsval) list" where
  "entries h (JRef a) = (case kind (obj_at h a) of KObject es \<Rightarrow> es | _ \<Rightarrow> [])"
| "entries h _ = []"

fun getProxyTarget :: "heap \<Rightarrow> jsval \<Rightarrow> jsval" where
  "getProxyTarget h (JRef a) = proxyTarget (obj_at h a)"
| "getProxyTarget h _ = JUndefined"

text \<open>\<^verbatim>\<open>isObject(proxy) ? getProxyTarget(proxy) ?? proxy : proxy\<close>\<close>

definition unwrapProxy :: "heap \<Rightarrow> jsval \<Rightarrow> jsval" where
  "unwrapProxy h proxy =
     (if isObject h proxy then
        (case getProxyTarget h proxy of JUndefined \<Rightarrow> proxy | JNull \<Rightarrow> proxy | t \<Rightarrow> t)
      else proxy)"

text \<open>
  The module-level \<^verbatim>\<open>noSerializeSet\<close> and the imported \<^verbatim>\<open>canSerialize\<close> (which asks
  the registered serializers, not among the sources) are parameters of the verifier.
\<close>

record verifier =
  noSerializeSet :: "jsval set"
  canSerialize :: "jsval \<Rightarrow> bool"

definition noSerialize :: "jsval \<Rightarrow> verifier \<Rightarrow> verifier" where
  "noSerialize input vf =
     (if input \<noteq> JUndefined \<and> input \<noteq> JNull
      then vf\<lparr>noSerializeSet := insert input (noSerializeSet vf)\<rparr> else vf)"

definition shouldSerialize :: "verifier \<Rightarrow> heap \<Rightarrow> jsval \<Rightarrow> bool" where
  "shouldSerialize vf h obj =
     (if isObject h obj \<or> isFunction h obj then obj \<notin> noSerializeSet vf else True)"

text \<open>The name of the constructor of a value and, for a function, its name and its
  source text as \<^verbatim>\<open>String(value)\<close> gives it.\<close>

fun constructor_name :: "heap \<Rightarrow> jsval \<Rightarrow> string" where
  "constructor_name h (JRef a) =
     (case kind (obj_at h a) of
        KArray xs \<Rightarrow> ''Array'' | KObject es \<Rightarrow> ''Object'' | KPromise \<Rightarrow> ''Promise''
      | KNode \<Rightarrow> ''Node'' | KInstance n \<Rightarrow> n | KFunction n src \<Rightarrow> ''Function'')"
| "constructor_name h (JBool b) = ''Boolean''"
| "constructor_name h (JNum n) = ''Number''"
| "constructor_name h JNaN = ''Number''"
| "constructor_name h (JStr s) = ''String''"
| "constructor_name h _ = ''undefined''"

fun function_name :: "heap \<Rightarrow> jsval \<Rightarrow> string" where
  "function_name h (JRef a) = (case kind (obj_at h a) of KFunction n src \<Rightarrow> n | _ \<Rightarrow> ''undefined'')"
| "function_name h _ = ''undefined''"

fun function_source :: "heap \<Rightarrow> jsval \<Rightarrow> string" where
  "function_source h (JRef a) = (case kind (obj_at h a) of KFunction n src \<Rightarrow> src | _ \<Rightarrow> ''[object Object]'')"
| "function_source h v = ToString v"

text \<open>The message of the error thrown at the end of \<^verbatim>\<open>_verifySerializable\<close>.\<close>

definition failure_message :: "heap \<Rightarrow> string option \<Rightarrow> string \<Rightarrow> string \<Rightarrow> jsval \<Rightarrow> string" where
  "failure_message h preMessage ctx typeObj v =
     (let message = (case preMessage of
                       None \<Rightarrow> ''Value cannot be serialized''
                     | Some p \<Rightarrow> if p \<noteq> [] then p else ''Value cannot be serialized'');
          message = (if ctx \<noteq> ''_'' then message @ '' in '' @ ctx @ '','' else message)
      in if typeObj = ''object'' then
           message @ '' because it's an instance of \"'' @ constructor_name h v @
             ''\". You might need to use 'noSerialize()' or use an object literal instead. Check out https://qwik.builder.io/docs/advanced/dollar/''
         else if typeObj = ''function'' then
           message @ '' because it's a function named \"'' @ function_name h v @
             ''\". You might need to convert it to a QRL using $(fn):'' @ [CHR 0x0A, CHR 0x0A] @
             ''const '' @ function_name h v @ '' = $('' @ function_source h v @ '');'' @
             [CHR 0x0A, CHR 0x0A] @
             ''Please check out https://qwik.builder.io/docs/advanced/qrl/ for more information.''
         else message)"

text \<open>
  A call of the verifier returns a value, throws, or (in the model) runs out of fuel:
  \<open>None\<close>. Every descent into the elements of an array or the entries of an object uses
  one unit of fuel.
\<close>

type_synonym 'a result = "(error + 'a) option"

text \<open>
  \<^verbatim>\<open>unwrapped.forEach((v, i) => ...)\<close>: the callback runs for the assigned indices in
  ascending order, holes are passed over. \<open>i\<close> is the index of the first slot of the list,
  \<open>expectIndex\<close> the variable of the enclosing function, \<open>recurse\<close> the recursive call.
\<close>

fun forEach_verify ::
  "(jsval \<Rightarrow> jsval set \<Rightarrow> string \<Rightarrow> (jsval \<times> jsval set) result) \<Rightarrow> jsval \<Rightarrow> string \<Rightarrow>
     jsval option list \<Rightarrow> nat \<Rightarrow> nat \<Rightarrow> jsval set \<Rightarrow> jsval set result" where
  "forEach_verify recurse unwrapped ctx [] i expectIndex seen = Some (Inr seen)"
| "forEach_verify recurse unwrapped ctx (None # xs) i expectIndex seen =
     forEach_verify recurse unwrapped ctx xs (Suc i) expectIndex seen"
| "forEach_verify recurse unwrapped ctx (Some v # xs) i expectIndex seen =
     (if i \<noteq> expectIndex then Some (Inl (QError_verifySerializable unwrapped))
      else (case recurse v seen (ctx @ ''['' @ nat_str i @ '']'') of
              None \<Rightarrow> None
            | Some (Inl e) \<Rightarrow> Some (Inl e)
            | Some (Inr r) \<Rightarrow> forEach_verify recurse unwrapped ctx xs (Suc i) (i + 1) (snd r)))"

text \<open>\<^verbatim>\<open>for (const [key, item] of Object.entries(unwrapped)) ...\<close>\<close>

fun entries_verify ::
  "(jsval \<Rightarrow> jsval set \<Rightarrow> string \<Rightarrow> (jsval \<times> jsval set) result) \<Rightarrow> string \<Rightarrow>
     (string \<times> jsval) list \<Rightarrow> jsval set \<Rightarrow> jsval set result" where
  "entries_verify recurse ctx [] seen = Some (Inr seen)"
| "entries_verify recurse ctx ((key, item) # rest) seen =
     (case recurse item seen (ctx @ ''.'' @ key) of
        None \<Rightarrow> None
      | Some (Inl e) \<Rightarrow> Some (Inl e)
      | Some (Inr r) \<Rightarrow> entries_verify recurse ctx rest (snd r))"

text \<open>\<^verbatim>\<open>_verifySerializable\<close>; the result carries the set \<open>seen\<close> as the call leaves it.\<close>

fun verifySerializable_rec ::
  "nat \<Rightarrow> verifier \<Rightarrow> heap \<Rightarrow> jsval \<Rightarrow> jsval set \<Rightarrow> string \<Rightarrow> string option \<Rightarrow>
     (jsval \<times> jsval set) result" where
  "verifySerializable_rec 0 vf h v seen ctx preMessage = None"
| "verifySerializable_rec (Suc fuel) vf h v seen ctx preMessage =
     (let unwrapped = unwrapProxy h v
      in if unwrapped = JUndefined \<or> unwrapped = JNull then Some (Inr (v, seen))
         else if shouldSerialize vf h unwrapped then
           (if unwrapped \<in> seen then Some (Inr (v, seen))
            else
              let seen1 = insert unwrapped seen
              in if canSerialize vf unwrapped then Some (Inr (v, seen1))
                 else
                   let typeObj = js_typeof h unwrapped
                   in if typeObj = ''object'' then
                        (if isPromise h unwrapped then Some (Inr (v, seen1))
                         else if isNode h unwrapped then Some (Inr (v, seen1))
                         else if isArray h unwrapped then
                           (case forEach_verify
                                   (\<lambda>x s c. verifySerializable_rec fuel vf h x s c None)
                                   unwrapped ctx (slots h unwrapped) 0 0 seen1 of
                              None \<Rightarrow> None
                            | Some (Inl e) \<Rightarrow> Some (Inl e)
                            | Some (Inr seen2) \<Rightarrow> Some (Inr (v, seen2)))
                         else if isSerializableObject h unwrapped then
                           (case entries_verify
                                   (\<lambda>x s c. verifySerializable_rec fuel vf h x s c None)
                                   ctx (entries h unwrapped) seen1 of
                              None \<Rightarrow> None
                            | Some (Inl e) \<Rightarrow> Some (Inl e)
                            | Some (Inr seen2) \<Rightarrow> Some (Inr (v, seen2)))
                         else Some (Inl (CreateError (failure_message h preMessage ctx typeObj v))))
                      else if typeObj = ''boolean'' \<or> typeObj = ''string'' \<or> typeObj = ''number''
                      then Some (Inr (v, seen1))
                      else Some (Inl (CreateError (failure_message h preMessage ctx typeObj v))))
         else Some (Inr (v, seen)))"

definition verifySerializable :: "nat \<Rightarrow> verifier \<Rightarrow> heap \<Rightarrow> jsval \<Rightarrow> string option \<Rightarrow> jsval result" where
  "verifySerializable fuel vf h v preMessage =
     (case verifySerializable_rec fuel vf h v {} ''_'' preMessage of
        None \<Rightarrow> None
      | Some (Inl e) \<Rightarrow> Some (Inl e)
      | Some (Inr r) \<Rightarrow> Some (Inr (fst r)))"


section \<open>Properties of edges and states\<close>

subsection \<open>Edges that survive the codec\<close>

text \<open>An identifier is a token of the record: not empty and free of spaces.\<close>

definition token :: "string \<Rightarrow> bool" where
  "token s = (s \<noteq> [] \<and> CHR '' '' \<notin> set s)"

text \<open>A reference is resolvable when \<open>getObjId\<close> gives it an identifier that \<open>getObject\<close>
  maps back to it; a host and the node of a tag 3 or 4 edge may also be a literal string,
  which is its own identifier.\<close>

definition resolvable :: "(jsval \<Rightarrow> string option) \<Rightarrow> (string \<Rightarrow> jsval) \<Rightarrow> jsval \<Rightarrow> bool" where
  "resolvable getObjId getObject v =
     (case getObjId v of None \<Rightarrow> False | Some i \<Rightarrow> token i \<and> getObject i = v)"

definition resolvable_or_literal ::
  "(jsval \<Rightarrow> string option) \<Rightarrow> (string \<Rightarrow> jsval) \<Rightarrow> jsval \<Rightarrow> bool" where
  "resolvable_or_literal getObjId getObject v =
     (case id_of getObjId v of None \<Rightarrow> False | Some i \<Rightarrow> token i \<and> getObject i = v)"

text \<open>A host that decoding keeps: truthy, and not a descriptor without its element.\<close>

definition live_host :: "runtime \<Rightarrow> jsval \<Rightarrow> bool" where
  "live_host rt host = (truthy host \<and> \<not> (isSubscriberDescriptor rt host \<and> \<not> truthy (el rt host)))"

text \<open>A key that the codec keeps: absent, or a string that is not empty and that
  \<^verbatim>\<open>encodeURI\<close> turns into a text without spaces from which \<^verbatim>\<open>decodeURI\<close> gives it back.\<close>

fun key_survives :: "runtime \<Rightarrow> jsval \<Rightarrow> bool" where
  "key_survives rt JUndefined = True"
| "key_survives rt (JStr k) =
     (k \<noteq> [] \<and> (case encodeURI rt k of
                   None \<Rightarrow> False
                 | Some e \<Rightarrow> CHR '' '' \<notin> set e \<and> decodeURI rt e = Some k))"
| "key_survives rt _ = False"

fun prop_survives :: "jsval \<Rightarrow> bool" where
  "prop_survives (JStr p) = (CHR '' '' \<notin> set p)"
| "prop_survives _ = False"

definition survives ::
  "runtime \<Rightarrow> (jsval \<Rightarrow> string option) \<Rightarrow> (string \<Rightarrow> jsval) \<Rightarrow> jsval list \<Rightarrow> bool" where
  "survives rt getObjId getObject sub =
     (resolvable_or_literal getObjId getObject (idx sub 1) \<and> live_host rt (idx sub 1) \<and>
      (length sub = 3 \<and> idx sub 0 = JNum 0 \<and> key_survives rt (idx sub 2)
       \<or> length sub = 6 \<and> (idx sub 0 = JNum 1 \<or> idx sub 0 = JNum 2) \<and>
           resolvable getObjId getObject (idx sub 2) \<and> resolvable getObjId getObject (idx sub 3) \<and>
           prop_survives (idx sub 4) \<and> key_survives rt (idx sub 5)
       \<or> length sub = 5 \<and> (idx sub 0 = JNum 3 \<or> idx sub 0 = JNum 4) \<and>
           resolvable getObjId getObject (idx sub 2) \<and>
           resolvable_or_literal getObjId getObject (idx sub 3) \<and> key_survives rt (idx sub 4)))"

text \<open>The identifier of the target of an edge of tag \<open>t\<close>: \<^verbatim>\<open>getObjId(sub[3])\<close> for tags
  1 and 2; for tags 3 and 4 a literal string stands for itself.\<close>

definition target_id :: "(jsval \<Rightarrow> string option) \<Rightarrow> int \<Rightarrow> jsval \<Rightarrow> string option" where
  "target_id getObjId t v = (if t \<le> 2 then getObjId v else id_of getObjId v)"

subsection \<open>Keys of stored edges\<close>

text \<open>The trailing element of an edge, \<^verbatim>\<open>sub[sub.length - 1]\<close>, is its key.\<close>

definition trailing :: "jsval list \<Rightarrow> jsval" where
  "trailing sub = idx sub (length sub - 1)"

fun is_key :: "jsval \<Rightarrow> bool" where
  "is_key JUndefined = True"
| "is_key (JStr k) = True"
| "is_key _ = False"

definition absent_or_empty :: "jsval \<Rightarrow> bool" where
  "absent_or_empty k = (k = JUndefined \<or> k = JStr [])"

text \<open>The stored tag 0 edges of a group and a key.\<close>

definition same_A :: "jsval \<Rightarrow> string option \<Rightarrow> jsval list \<Rightarrow> bool" where
  "same_A grp key e = (idx e 0 = JNum 0 \<and> idx e 1 = grp \<and> idx e 2 = opt_val key)"

subsection \<open>The group index covers the stored edges\<close>

text \<open>Manager \<open>m\<close> is in the array that the group index holds for the group \<open>g\<close>.\<close>

definition listed :: "container \<Rightarrow> jsval \<Rightarrow> addr \<Rightarrow> bool" where
  "listed s g m = (\<exists>a. groupToManagers s g = Some a \<and> m \<in> set (arrays s a))"

text \<open>Every manager that stores an edge is listed for the group of the edge.\<close>

definition registered :: "container \<Rightarrow> bool" where
  "registered s = (\<forall>m e. e \<in> set (subs s m) \<longrightarrow> listed s (idx e 1) m)"

text \<open>Two groups never share an array, and the arrays in use were allocated.\<close>

definition arrays_ok :: "container \<Rightarrow> bool" where
  "arrays_ok s =
     (inj_on (groupToManagers s) (dom (groupToManagers s)) \<and>
      (\<forall>g a. groupToManagers s g = Some a \<longrightarrow> a < nextArray s))"

definition index_ok :: "container \<Rightarrow> bool" where
  "index_ok s =
     (registered s \<and> arrays_ok s \<and> (\<forall>m. nextManager s \<le> m \<longrightarrow> subs s m = []))"

text \<open>The calls of \<^verbatim>\<open>notifyChange\<close> that \<open>notifySubs\<close> makes in a state.\<close>

definition notified :: "addr \<Rightarrow> string option \<Rightarrow> container \<Rightarrow> jsval list list" where
  "notified this key s = drop (length (notifyChange s)) (notifyChange (notifySubs this key s))"

subsection \<open>Value graphs of primitives, dense arrays and plain objects\<close>

text \<open>
  A value graph is given by the set \<open>R\<close> of the addresses of its objects: every object in
  \<open>R\<close> is an array without holes or a plain object, and the references in it (and its
  proxy target, if it has one) stay in \<open>R\<close>. Any value that is not a reference is a
  primitive (or \<^verbatim>\<open>undefined\<close> or \<^verbatim>\<open>null\<close>).
\<close>

fun plain_val :: "addr set \<Rightarrow> jsval \<Rightarrow> bool" where
  "plain_val R (JRef a) = (a \<in> R)"
| "plain_val R _ = True"

fun plain_slot :: "addr set \<Rightarrow> jsval option \<Rightarrow> bool" where
  "plain_slot R None = False"
| "plain_slot R (Some v) = plain_val R v"

fun plain_kind :: "addr set \<Rightarrow> jskind \<Rightarrow> bool" where
  "plain_kind R (KArray xs) = list_all (plain_slot R) xs"
| "plain_kind R (KObject es) = list_all (\<lambda>e. plain_val R (snd e)) es"
| "plain_kind R _ = False"

definition plain_graph :: "heap \<Rightarrow> addr set \<Rightarrow> bool" where
  "plain_graph h R =
     (\<forall>a \<in> R. a < length h \<and> plain_kind R (kind (h ! a)) \<and> plain_val R (proxyTarget (h ! a)))"

text \<open>The objects of the heap that are not yet in \<open>seen\<close>.\<close>

definition unseen :: "heap \<Rightarrow> jsval set \<Rightarrow> addr set" where
  "unseen h seen = {a. a < length h \<and> JRef a \<notin> seen}"

text \<open>A call of the verifier that ends, and leaves in \<open>seen\<close> what was there.\<close>

definition ends :: "(jsval \<times> jsval set) result \<Rightarrow> jsval \<Rightarrow> jsval set \<Rightarrow> bool" where
  "ends r v seen =
     (case r of None \<Rightarrow> False | Some (Inl e) \<Rightarrow> True | Some (Inr p) \<Rightarrow> fst p = v \<and> seen \<subseteq> snd p)"

definition ends_set :: "jsval set result \<Rightarrow> jsval set \<Rightarrow> bool" where
  "ends_set r seen = (case r of None \<Rightarrow> False | Some (Inl e) \<Rightarrow> True | Some (Inr s) \<Rightarrow> seen \<subseteq> s)"

section \<open>An instance of the parameters\<close>

text \<open>
  \<^verbatim>\<open>encodeURI\<close> and \<^verbatim>\<open>decodeURI\<close> of ECMAScript on strings of code units below 256.
  \<^verbatim>\<open>encodeURI\<close> keeps letters, digits, the marks and the reserved characters, and writes
  any other code unit as the percent-escapes of its UTF-8 bytes. \<^verbatim>\<open>decodeURI\<close> reads the
  escapes back, keeps the escape of a reserved character as it is, and fails on a
  malformed escape (and, here, on one that denotes a code unit from 256 on).
\<close>

definition uriReserved :: "char \<Rightarrow> bool" where
  "uriReserved c = (c \<in> set '';/?:@&=+$,#'')"

definition uriUnescaped :: "char \<Rightarrow> bool" where
  "uriUnescaped c =
     (let n = (of_char c :: nat)
      in 65 \<le> n \<and> n \<le> 90 \<or> 97 \<le> n \<and> n \<le> 122 \<or> 48 \<le> n \<and> n \<le> 57 \<or>
         c \<in> set ''-_.!~*'()'' \<or> uriReserved c)"

definition hex_digit :: "nat \<Rightarrow> char" where
  "hex_digit d = ''0123456789ABCDEF'' ! (d mod 16)"

definition percent :: "nat \<Rightarrow> string" where
  "percent n = [CHR ''%'', hex_digit (n div 16), hex_digit n]"

definition encodeURI_unit :: "char \<Rightarrow> string" where
  "encodeURI_unit c =
     (let n = (of_char c :: nat)
      in if uriUnescaped c then [c]
         else if n < 128 then percent n
         else percent (192 + n div 64) @ percent (128 + n mod 64))"

definition encodeURI8 :: "string \<Rightarrow> string option" where
  "encodeURI8 s = Some (concat (map encodeURI_unit s))"

definition hex_val :: "char \<Rightarrow> nat option" where
  "hex_val c =
     (let n = (of_char c :: nat)
      in if 48 \<le> n \<and> n \<le> 57 then Some (n - 48)
         else if 65 \<le> n \<and> n \<le> 70 then Some (n - 55)
         else if 97 \<le> n \<and> n \<le> 102 then Some (n - 87)
         else None)"

text \<open>The byte that the escape at the head of a text denotes, with the rest of the text.\<close>

fun escape :: "string \<Rightarrow> (nat \<times> string) option" where
  "escape (p # h1 # h2 # rest) =
     (if p = CHR ''%'' then
        (case hex_val h1 of
           None \<Rightarrow> None
         | Some a \<Rightarrow> (case hex_val h2 of None \<Rightarrow> None | Some b \<Rightarrow> Some (16 * a + b, rest)))
      else None)"
| "escape _ = None"

lemma escape_shorter: "escape s = Some (n, rest) \<Longrightarrow> length rest < length s"
  by (cases s rule: escape.cases) (auto split: if_splits option.splits)

function decodeURI8 :: "string \<Rightarrow> string option" where
  "decodeURI8 [] = Some []"
| "decodeURI8 (c # cs) =
     (if c \<noteq> CHR ''%'' then map_option ((#) c) (decodeURI8 cs)
      else
        (case escape (c # cs) of
           None \<Rightarrow> None
         | Some (n, rest) \<Rightarrow>
             if n < 128 then
               (if uriReserved (char_of n) then map_option ((@) (take 3 (c # cs))) (decodeURI8 rest)
                else map_option ((#) (char_of n)) (decodeURI8 rest))
             else if n = 194 \<or> n = 195 then
               (case escape rest of
                  None \<Rightarrow> None
                | Some (m, rest2) \<Rightarrow>
                    if 128 \<le> m \<and> m < 192 then
                      map_option ((#) (char_of ((n - 192) * 64 + (m - 128)))) (decodeURI8 rest2)
                    else None)
             else None))"
  by pat_completeness auto
termination
proof (relation "measure length", goal_cases)
  case (3 c cs p n rest)
  then show ?case using escape_shorter[of "c # cs" n rest] by simp
next
  case (4 c cs p n rest)
  then show ?case using escape_shorter[of "c # cs" n rest] by simp
next
  case (5 c cs p n rest q m rest2)
  then show ?case using escape_shorter[of "c # cs" n rest] escape_shorter[of rest m rest2] by simp
qed simp_all

definition example_runtime :: runtime where
  "example_runtime =
     \<lparr>encodeURI = encodeURI8, decodeURI = decodeURI8,
      isSubscriberDescriptor = (\<lambda>v. False), el = (\<lambda>v. JUndefined)\<rparr>"

text \<open>Three objects with identifiers: a host, a signal and an element.\<close>

definition example_getObjId :: "jsval \<Rightarrow> string option" where
  "example_getObjId v =
     (if v = JRef 1 then Some ''12'' else if v = JRef 2 then Some ''5''
      else if v = JRef 3 then Some ''#7'' else None)"

definition example_getObject :: "string \<Rightarrow> jsval" where
  "example_getObject i =
     (if i = ''12'' then JRef 1 else if i = ''5'' then JRef 2
      else if i = ''#7'' then JRef 3 else JUndefined)"

definition example_verifier :: verifier where
  "example_verifier = \<lparr>noSerializeSet = {}, canSerialize = (\<lambda>v. False)\<rparr>"

text \<open>A manager that holds one tag 0 edge of the host \<open>JRef 1\<close> with the key \<open>k1\<close>.\<close>

definition example_container :: container where
  "example_container =
     addSub 0 [JNum 0, JRef 1] (Some ''k1'') (snd (createManager None createSubscriptionManager))"

text \<open>An object that refers to itself; the value \<^verbatim>\<open>{a: 1, b: [1, 2, 3]}\<close>; and three
  arrays with holes: \<^verbatim>\<open>[1, ,]\<close>, \<^verbatim>\<open>new Array(3)\<close> and \<^verbatim>\<open>[1, , 3]\<close>.\<close>

definition cyclic_heap :: heap where
  "cyclic_heap = [\<lparr>kind = KObject [(''self'', JRef 0)], proxyTarget = JUndefined\<rparr>]"

definition scenario_heap :: heap where
  "scenario_heap =
     [\<lparr>kind = KObject [(''a'', JNum 1), (''b'', JRef 1)], proxyTarget = JUndefined\<rparr>,
      \<lparr>kind = KArray [Some (JNum 1), Some (JNum 2), Some (JNum 3)], proxyTarget = JUndefined\<rparr>]"

definition holes_heap :: heap where
  "holes_heap =
     [\<lparr>kind = KArray [Some (JNum 1), None], proxyTarget = JUndefined\<rparr>,
      \<lparr>kind = KArray [None, None, None], proxyTarget = JUndefined\<rparr>,
      \<lparr>kind = KArray [Some (JNum 1), None, Some (JNum 3)], proxyTarget = JUndefined\<rparr>]"

section \<open>The codec: encoding, then decoding\<close>

lemma parseInt_tag:
  "parseInt ''0'' = Some 0" "parseInt ''1'' = Some 1" "parseInt ''2'' = Some 2"
  "parseInt ''3'' = Some 3" "parseInt ''4'' = Some 4"
  by (simp_all add: parseInt_def isWhiteSpace_def isDigit_def digits_val_def)

lemma num_str_tag:
  "num_str 0 = ''0''" "num_str 1 = ''1''" "num_str 2 = ''2''" "num_str 3 = ''3''" "num_str 4 = ''4''"
  by (simp_all add: num_str_def nat_str.simps digit_char_def)

lemma parseInt_num_str: "0 \<le> t \<Longrightarrow> t \<le> 4 \<Longrightarrow> parseInt (num_str t) = Some t"
proof -
  assume "0 \<le> t" "t \<le> 4"
  then have "t = 0 \<or> t = 1 \<or> t = 2 \<or> t = 3 \<or> t = 4" by arith
  then show ?thesis by (auto simp: parseInt_tag num_str_tag)
qed

text \<open>The decoder on a record whose parts are known.\<close>

lemmas parse_simps = Let_def live_host_def part_def assertTrue_def resolve_def strict_eq_def

lemma parse_host_dropped:
  assumes "str_split text = p0 # i # ps" "\<not> live_host rt (getObject i)"
  shows "parseSubscription rt text getObject = Inr None"
  using assms(2) unfolding parseSubscription_def assms(1)
  by (simp add: parse_simps)

lemma parse_A0:
  assumes "str_split text = [p0, i]" "parseInt p0 = Some 0" "live_host rt (getObject i)"
  shows "parseSubscription rt text getObject = Inr (Some [JNum 0, getObject i, JUndefined])"
  using assms(2-) unfolding parseSubscription_def assms(1)
  by (simp add: parse_simps)

lemma parse_A1:
  assumes "str_split text = [p0, i, e]" "parseInt p0 = Some 0" "live_host rt (getObject i)"
    "decodeURI rt e = Some k"
  shows "parseSubscription rt text getObject = Inr (Some [JNum 0, getObject i, JStr k])"
  using assms(2-) unfolding parseSubscription_def assms(1)
  by (simp add: parse_simps)

lemma parse_B0:
  assumes "str_split text = [p0, i, si, ei, p]" "parseInt p0 = Some t" "t = 1 \<or> t = 2"
    "live_host rt (getObject i)"
  shows "parseSubscription rt text getObject =
     Inr (Some [JNum t, getObject i, getObject si, getObject ei, JStr p, JUndefined])"
  using assms(2-) unfolding parseSubscription_def assms(1)
  by (auto simp add: parse_simps)

lemma parse_B1:
  assumes "str_split text = [p0, i, si, ei, p, e]" "parseInt p0 = Some t" "t = 1 \<or> t = 2"
    "live_host rt (getObject i)" "decodeURI rt e = Some k"
  shows "parseSubscription rt text getObject =
     Inr (Some [JNum t, getObject i, getObject si, getObject ei, JStr p, JStr k])"
  using assms(2-) unfolding parseSubscription_def assms(1)
  by (auto simp add: parse_simps)

lemma parse_C0:
  assumes "str_split text = [p0, i, si, ei]" "parseInt p0 = Some t" "t = 3 \<or> t = 4"
    "live_host rt (getObject i)"
  shows "parseSubscription rt text getObject =
     Inr (Some [JNum t, getObject i, getObject si, getObject ei, JUndefined])"
  using assms(2-) unfolding parseSubscription_def assms(1)
  by (auto simp add: parse_simps)

lemma parse_C1:
  assumes "str_split text = [p0, i, si, ei, e]" "parseInt p0 = Some t" "t = 3 \<or> t = 4"
    "live_host rt (getObject i)" "decodeURI rt e = Some k"
  shows "parseSubscription rt text getObject =
     Inr (Some [JNum t, getObject i, getObject si, getObject ei, JStr k])"
  using assms(2-) unfolding parseSubscription_def assms(1)
  by (auto simp add: parse_simps)


lemma str_split_not_Nil [simp]: "str_split s \<noteq> []"
  by (induction s) (auto split: list.splits)

lemma str_split_token: "CHR '' '' \<notin> set a \<Longrightarrow> str_split (a @ CHR '' '' # r) = a # str_split r"
  by (induction a) (auto split: list.splits)

lemma str_split_last: "CHR '' '' \<notin> set a \<Longrightarrow> str_split a = [a]"
  by (induction a) (auto split: list.splits)

lemma str_split_join:
  "CHR '' '' \<notin> set a \<Longrightarrow> str_split (a @ '' '' @ r) = a # str_split r"
  by (simp add: str_split_token)

lemmas split_record = str_split_join str_split_token str_split_last

lemma no_space_tag: "0 \<le> t \<Longrightarrow> t \<le> 4 \<Longrightarrow> CHR '' '' \<notin> set (num_str t)"
proof -
  assume "0 \<le> t" "t \<le> 4"
  then have "t = 0 \<or> t = 1 \<or> t = 2 \<or> t = 3 \<or> t = 4" by arith
  then show ?thesis by (auto simp: num_str_tag)
qed

text \<open>The encoder on an edge of each shape.\<close>

lemmas serialize_simps = serializeSubscription_def idx_def Let_def strict_eq_def

lemma serialize_A:
  assumes "id_of getObjId host = Some i" "i \<noteq> []"
  shows "serializeSubscription rt [JNum 0, host, key] getObjId = append_key rt (''0 '' @ i) key"
  using assms by (simp add: serialize_simps num_str_tag)

lemma serialize_B:
  assumes "id_of getObjId host = Some i" "i \<noteq> []" "t = 1 \<or> t = 2"
    "getObjId signal = Some si" "si \<noteq> []" "getObjId elm = Some ei"
  shows "serializeSubscription rt [JNum t, host, signal, elm, JStr p, key] getObjId =
     append_key rt (num_str t @ '' '' @ i @ '' '' @ si @ '' '' @ ei @ '' '' @ p) key"
  using assms by (auto simp add: serialize_simps)

lemma serialize_C:
  assumes "id_of getObjId host = Some i" "i \<noteq> []" "t = 3 \<or> t = 4"
    "getObjId signal = Some si" "si \<noteq> []" "id_of getObjId elm = Some ei"
  shows "serializeSubscription rt [JNum t, host, signal, elm, key] getObjId =
     append_key rt (num_str t @ '' '' @ i @ '' '' @ si @ '' '' @ ei) key"
  using assms by (cases elm) (auto simp add: serialize_simps id_of_def)

lemma append_key_absent: "append_key rt base JUndefined = Inr (Some base)"
  by (simp add: append_key_def)

lemma append_key_present:
  "k \<noteq> [] \<Longrightarrow> encodeURI rt k = Some e \<Longrightarrow> append_key rt base (JStr k) = Inr (Some (base @ '' '' @ e))"
  by (simp add: append_key_def)

lemma key_survives_cases:
  assumes "key_survives rt key"
  obtains (absent) "key = JUndefined"
  | (present) k e where "key = JStr k" "k \<noteq> []" "encodeURI rt k = Some e" "CHR '' '' \<notin> set e" "decodeURI rt e = Some k"
  using assms by (cases key) (auto split: option.splits)

lemma resolvable_or_literalD:
  assumes "resolvable_or_literal getObjId getObject v"
  obtains i where "id_of getObjId v = Some i" "i \<noteq> []" "CHR '' '' \<notin> set i" "getObject i = v"
  using assms by (auto simp: resolvable_or_literal_def token_def split: option.splits)

lemma resolvableD:
  assumes "resolvable getObjId getObject v"
  obtains i where "getObjId v = Some i" "i \<noteq> []" "CHR '' '' \<notin> set i" "getObject i = v"
  using assms by (auto simp: resolvable_def token_def split: option.splits)

lemma length3D: "length xs = 3 \<Longrightarrow> xs = [idx xs 0, idx xs 1, idx xs 2]"
  by (auto simp: idx_def length_Suc_conv numeral_3_eq_3)

lemma length5D: "length xs = 5 \<Longrightarrow> xs = [idx xs 0, idx xs 1, idx xs 2, idx xs 3, idx xs 4]"
  by (auto simp: idx_def length_Suc_conv eval_nat_numeral)

lemma length6D: "length xs = 6 \<Longrightarrow> xs = [idx xs 0, idx xs 1, idx xs 2, idx xs 3, idx xs 4, idx xs 5]"
  by (auto simp: idx_def length_Suc_conv eval_nat_numeral)


lemma prop_survivesD: "prop_survives v \<Longrightarrow> \<exists>p. v = JStr p \<and> CHR '' '' \<notin> set p"
  by (cases v) auto

lemma survives_cases:
  assumes "survives rt getObjId getObject sub"
  obtains
    (A) host key where "sub = [JNum 0, host, key]"
      "resolvable_or_literal getObjId getObject host" "live_host rt host" "key_survives rt key"
  | (B) t host signal elm p key where "sub = [JNum t, host, signal, elm, JStr p, key]"
      "t = 1 \<or> t = 2"
      "resolvable_or_literal getObjId getObject host" "live_host rt host"
      "resolvable getObjId getObject signal" "resolvable getObjId getObject elm"
      "CHR '' '' \<notin> set p" "key_survives rt key"
  | (C) t host signal elm key where "sub = [JNum t, host, signal, elm, key]"
      "t = 3 \<or> t = 4"
      "resolvable_or_literal getObjId getObject host" "live_host rt host"
      "resolvable getObjId getObject signal" "resolvable_or_literal getObjId getObject elm"
      "key_survives rt key"
proof -
  from assms have host: "resolvable_or_literal getObjId getObject (idx sub 1)" "live_host rt (idx sub 1)"
    by (simp_all add: survives_def)
  from assms consider
    (a) "length sub = 3" "idx sub 0 = JNum 0" "key_survives rt (idx sub 2)"
  | (b) "length sub = 6" "idx sub 0 = JNum 1 \<or> idx sub 0 = JNum 2"
        "resolvable getObjId getObject (idx sub 2)" "resolvable getObjId getObject (idx sub 3)"
        "prop_survives (idx sub 4)" "key_survives rt (idx sub 5)"
  | (c) "length sub = 5" "idx sub 0 = JNum 3 \<or> idx sub 0 = JNum 4"
        "resolvable getObjId getObject (idx sub 2)"
        "resolvable_or_literal getObjId getObject (idx sub 3)" "key_survives rt (idx sub 4)"
    unfolding survives_def by blast
  then show thesis
  proof cases
    case a
    from length3D[OF a(1)] a(2) have "sub = [JNum 0, idx sub 1, idx sub 2]" by simp
    then show thesis using A host a(3) by blast
  next
    case b
    from prop_survivesD[OF b(5)] obtain p where p: "idx sub 4 = JStr p" "CHR '' '' \<notin> set p" by blast
    from b(2) obtain t where t: "idx sub 0 = JNum t" "t = 1 \<or> t = 2" by blast
    from length6D[OF b(1)] t(1) p(1)
    have "sub = [JNum t, idx sub 1, idx sub 2, idx sub 3, JStr p, idx sub 5]" by simp
    then show thesis using B host b(3,4,6) t(2) p(2) by blast
  next
    case c
    from c(2) obtain t where t: "idx sub 0 = JNum t" "t = 3 \<or> t = 4" by blast
    from length5D[OF c(1)] t(1)
    have "sub = [JNum t, idx sub 1, idx sub 2, idx sub 3, idx sub 4]" by simp
    then show thesis using C host c(3,4,5) t(2) by blast
  qed
qed

text \<open>
  Claim C1, as amended. An edge of tag 0 to 4 is given back by \<open>parseSubscription\<close> from
  the text that \<open>serializeSubscription\<close> makes of it, when every reference of the edge is
  resolvable (with an identifier that is a token and that \<open>getObject\<close> maps back), the host
  is one that decoding keeps, the property of a tag 1 or 2 edge is free of spaces, and the
  key is absent or is a string that is not empty and passes through \<^verbatim>\<open>encodeURI\<close> and
  \<^verbatim>\<open>decodeURI\<close> unchanged.
\<close>

theorem codec_round_trip:
  assumes "survives rt getObjId getObject sub"
  shows "\<exists>text. serializeSubscription rt sub getObjId = Inr (Some text) \<and>
                parseSubscription rt text getObject = Inr (Some sub)"
  using assms
proof (cases rule: survives_cases)
  case (A host key)
  from A(2) obtain i where i: "id_of getObjId host = Some i" "i \<noteq> []" "CHR '' '' \<notin> set i" "getObject i = host"
    by (rule resolvable_or_literalD)
  have live: "live_host rt (getObject i)" using A(3) i(4) by simp
  have ser: "serializeSubscription rt sub getObjId = append_key rt (''0'' @ '' '' @ i) key"
    unfolding A(1) using serialize_A[OF i(1,2)] by simp
  from A(4) show ?thesis
  proof (cases rule: key_survives_cases)
    case absent
    have "str_split (''0'' @ '' '' @ i) = [''0'', i]" using i(3) by (simp add: split_record)
    from parse_A0[where getObject = getObject and rt = rt, OF this parseInt_tag(1) live]
    show ?thesis using ser absent i(4) A(1) by (simp add: append_key_absent)
  next
    case (present k e)
    have "str_split ((''0'' @ '' '' @ i) @ '' '' @ e) = [''0'', i, e]"
      using i(3) present(4) by (simp add: split_record)
    from parse_A1[where getObject = getObject and rt = rt, OF this parseInt_tag(1) live present(5)]
    show ?thesis using ser present(1) i(4) A(1) append_key_present[OF present(2,3)] by simp
  qed
next
  case (B t host signal elm p key)
  from B(3) obtain i where i: "id_of getObjId host = Some i" "i \<noteq> []" "CHR '' '' \<notin> set i" "getObject i = host"
    by (rule resolvable_or_literalD)
  from B(5) obtain si where si: "getObjId signal = Some si" "si \<noteq> []" "CHR '' '' \<notin> set si" "getObject si = signal"
    by (rule resolvableD)
  from B(6) obtain ei where ei: "getObjId elm = Some ei" "ei \<noteq> []" "CHR '' '' \<notin> set ei" "getObject ei = elm"
    by (rule resolvableD)
  have live: "live_host rt (getObject i)" using B(4) i(4) by simp
  have t: "0 \<le> t" "t \<le> 4" using B(2) by auto
  let ?base = "num_str t @ '' '' @ i @ '' '' @ si @ '' '' @ ei @ '' '' @ p"
  have ser: "serializeSubscription rt sub getObjId = append_key rt ?base key"
    unfolding B(1) by (rule serialize_B[OF i(1,2) B(2) si(1,2) ei(1)])
  from B(8) show ?thesis
  proof (cases rule: key_survives_cases)
    case absent
    have "str_split ?base = [num_str t, i, si, ei, p]"
      using i(3) si(3) ei(3) B(7) no_space_tag[OF t] by (simp add: split_record)
    from parse_B0[where getObject = getObject and rt = rt, OF this parseInt_num_str[OF t] B(2) live]
    show ?thesis using ser absent i(4) si(4) ei(4) B(1) by (simp add: append_key_absent)
  next
    case (present k e)
    have "str_split (?base @ '' '' @ e) = [num_str t, i, si, ei, p, e]"
      using i(3) si(3) ei(3) B(7) present(4) no_space_tag[OF t] by (simp add: split_record)
    from parse_B1[where getObject = getObject and rt = rt, OF this parseInt_num_str[OF t] B(2) live present(5)]
    show ?thesis using ser present(1) i(4) si(4) ei(4) B(1) append_key_present[OF present(2,3)] by simp
  qed
next
  case (C t host signal elm key)
  from C(3) obtain i where i: "id_of getObjId host = Some i" "i \<noteq> []" "CHR '' '' \<notin> set i" "getObject i = host"
    by (rule resolvable_or_literalD)
  from C(5) obtain si where si: "getObjId signal = Some si" "si \<noteq> []" "CHR '' '' \<notin> set si" "getObject si = signal"
    by (rule resolvableD)
  from C(6) obtain ei where ei: "id_of getObjId elm = Some ei" "ei \<noteq> []" "CHR '' '' \<notin> set ei" "getObject ei = elm"
    by (rule resolvable_or_literalD)
  have live: "live_host rt (getObject i)" using C(4) i(4) by simp
  have t: "0 \<le> t" "t \<le> 4" using C(2) by auto
  let ?base = "num_str t @ '' '' @ i @ '' '' @ si @ '' '' @ ei"
  have ser: "serializeSubscription rt sub getObjId = append_key rt ?base key"
    unfolding C(1) by (rule serialize_C[OF i(1,2) C(2) si(1,2) ei(1)])
  from C(7) show ?thesis
  proof (cases rule: key_survives_cases)
    case absent
    have "str_split ?base = [num_str t, i, si, ei]"
      using i(3) si(3) ei(3) no_space_tag[OF t] by (simp add: split_record)
    from parse_C0[where getObject = getObject and rt = rt, OF this parseInt_num_str[OF t] C(2) live]
    show ?thesis using ser absent i(4) si(4) ei(4) C(1) by (simp add: append_key_absent)
  next
    case (present k e)
    have "str_split (?base @ '' '' @ e) = [num_str t, i, si, ei, e]"
      using i(3) si(3) ei(3) present(4) no_space_tag[OF t] by (simp add: split_record)
    from parse_C1[where getObject = getObject and rt = rt, OF this parseInt_num_str[OF t] C(2) live present(5)]
    show ?thesis using ser present(1) i(4) si(4) ei(4) C(1) append_key_present[OF present(2,3)] by simp
  qed
qed

theorem codec_round_trip_witness:
  "survives example_runtime example_getObjId example_getObject
     [JNum 2, JRef 1, JRef 2, JRef 3, JStr ''class'', JStr ''a b''] \<and>
   (\<exists>text. serializeSubscription example_runtime
              [JNum 2, JRef 1, JRef 2, JRef 3, JStr ''class'', JStr ''a b''] example_getObjId = Inr (Some text) \<and>
            parseSubscription example_runtime text example_getObject =
              Inr (Some [JNum 2, JRef 1, JRef 2, JRef 3, JStr ''class'', JStr ''a b'']))"
proof -
  have h: "survives example_runtime example_getObjId example_getObject
     [JNum 2, JRef 1, JRef 2, JRef 3, JStr ''class'', JStr ''a b'']"
    by code_simp
  show ?thesis using h codec_round_trip [OF h] by simp
qed

text \<open>
  Claim C1, as stated, fails for a key that is the empty string: the tag 2 edge below, all
  of whose references are resolvable, comes back with the key \<^verbatim>\<open>undefined\<close>.
\<close>

theorem empty_key_counterexample:
  "serializeSubscription example_runtime [JNum 2, JRef 1, JRef 2, JRef 3, JStr ''class'', JStr ''''] example_getObjId
     = Inr (Some ''2 12 5 #7 class'') \<and>
   parseSubscription example_runtime ''2 12 5 #7 class'' example_getObject
     = Inr (Some [JNum 2, JRef 1, JRef 2, JRef 3, JStr ''class'', JUndefined]) \<and>
   [JNum 2, JRef 1, JRef 2, JRef 3, JStr ''class'', JUndefined]
     \<noteq> [JNum 2, JRef 1, JRef 2, JRef 3, JStr ''class'', JStr ''''] \<and>
   example_getObject ''12'' = JRef 1 \<and> example_getObject ''5'' = JRef 2 \<and> example_getObject ''#7'' = JRef 3"
  by code_simp

text \<open>
  Claim C10. For every tag 0 edge whose key is the empty string (and whose host is
  resolvable and kept by decoding) \<open>serializeSubscription\<close> emits the tag and the host
  identifier only, the record has exactly two parts, and \<open>parseSubscription\<close> gives the
  edge with the key \<^verbatim>\<open>undefined\<close>, which is not the edge that was encoded.
\<close>

theorem empty_key_is_dropped:
  assumes "resolvable_or_literal getObjId getObject host" "live_host rt host"
  shows "\<exists>i. id_of getObjId host = Some i \<and>
             serializeSubscription rt [JNum 0, host, JStr ''''] getObjId = Inr (Some (''0 '' @ i)) \<and>
             length (str_split (''0 '' @ i)) = 2 \<and>
             parseSubscription rt (''0 '' @ i) getObject = Inr (Some [JNum 0, host, JUndefined]) \<and>
             [JNum 0, host, JUndefined] \<noteq> [JNum 0, host, JStr '''']"
proof -
  from assms(1) obtain i where i: "id_of getObjId host = Some i" "i \<noteq> []" "CHR '' '' \<notin> set i" "getObject i = host"
    by (rule resolvable_or_literalD)
  have live: "live_host rt (getObject i)" using assms(2) i(4) by simp
  have ser: "serializeSubscription rt [JNum 0, host, JStr ''''] getObjId = Inr (Some (''0 '' @ i))"
    using serialize_A[OF i(1,2)] by (simp add: append_key_def)
  have sp: "str_split (''0 '' @ i) = [''0'', i]" using i(3) by (simp add: split_record)
  from parse_A0[where getObject = getObject and rt = rt, OF sp parseInt_tag(1) live]
  show ?thesis using i(1,4) ser sp by simp
qed

theorem empty_key_is_dropped_witness:
  "resolvable_or_literal example_getObjId example_getObject (JRef 1) \<and> live_host example_runtime (JRef 1) \<and>
   serializeSubscription example_runtime [JNum 0, JRef 1, JStr ''''] example_getObjId = Inr (Some ''0 12'') \<and>
   str_split ''0 12'' = [''0'', ''12''] \<and>
   parseSubscription example_runtime ''0 12'' example_getObject = Inr (Some [JNum 0, JRef 1, JUndefined])"
proof -
  have h1: "resolvable_or_literal example_getObjId example_getObject (JRef 1)" by code_simp
  have h2: "live_host example_runtime (JRef 1)" by code_simp
  have i: "id_of example_getObjId (JRef 1) = Some ''12''" by code_simp
  show ?thesis using h1 h2 empty_key_is_dropped [OF h1 h2] i by (auto simp: split_record)
qed

section \<open>The codec: unresolved references\<close>

text \<open>
  Claim C5, as stated, fails for the target: when the host and the signal of a tag 1 edge
  are resolved and \<open>getObjId\<close> has no identifier for the element, \<^verbatim>\<open>must\<close> throws and
  \<open>serializeSubscription\<close> does not return \<^verbatim>\<open>undefined\<close>.
\<close>

theorem must_throws_counterexample:
  "example_getObjId (JRef 9) = None \<and>
   serializeSubscription example_runtime [JNum 1, JRef 1, JRef 2, JRef 9, JStr ''class'', JUndefined] example_getObjId
     = Inl MustBeNonNull"
  by code_simp

text \<open>
  Claim C5, as amended. For an edge of tag 0 to 4: when the host has no identifier the
  result is \<^verbatim>\<open>undefined\<close>; for the tags 1 to 4, when the signal has no identifier the
  result is \<^verbatim>\<open>undefined\<close>, and when the target has none the call throws by \<^verbatim>\<open>must\<close>,
  unless the host or the signal already made it return \<^verbatim>\<open>undefined\<close>. In none of these
  cases is a record returned.
\<close>

theorem serialize_unresolved_reference:
  assumes "idx sub 0 = JNum t" "0 \<le> t" "t \<le> 4"
  shows "(id_of getObjId (idx sub 1) = None \<longrightarrow> serializeSubscription rt sub getObjId = Inr None) \<and>
         (t \<noteq> 0 \<and> getObjId (idx sub 2) = None \<longrightarrow> serializeSubscription rt sub getObjId = Inr None) \<and>
         (t \<noteq> 0 \<and> target_id getObjId t (idx sub 3) = None \<longrightarrow>
            serializeSubscription rt sub getObjId
              = (if id_of getObjId (idx sub 1) \<in> {None, Some []} \<or> getObjId (idx sub 2) \<in> {None, Some []}
                 then Inr None else Inl MustBeNonNull))"
  using assms
  by (auto simp add: serializeSubscription_def Let_def strict_eq_def target_id_def id_of_def
      split: option.splits jsval.splits)

theorem serialize_unresolved_reference_witness:
  "serializeSubscription example_runtime [JNum 1, JRef 9, JRef 2, JRef 3, JStr ''class'', JUndefined] example_getObjId = Inr None \<and>
   serializeSubscription example_runtime [JNum 3, JRef 1, JRef 9, JRef 3, JUndefined] example_getObjId = Inr None \<and>
   serializeSubscription example_runtime [JNum 3, JRef 1, JRef 2, JRef 9, JUndefined] example_getObjId = Inl MustBeNonNull"
proof -
  have a: "idx [JNum 1, JRef 9, JRef 2, JRef 3, JStr ''class'', JUndefined] 0 = JNum 1" by code_simp
  have b: "idx [JNum 3, JRef 1, JRef 9, JRef 3, JUndefined] 0 = JNum 3" by code_simp
  have c: "idx [JNum 3, JRef 1, JRef 2, JRef 9, JUndefined] 0 = JNum 3" by code_simp
  show ?thesis
    using serialize_unresolved_reference [OF a, of example_getObjId example_runtime]
      serialize_unresolved_reference [OF b, of example_getObjId example_runtime]
      serialize_unresolved_reference [OF c, of example_getObjId example_runtime]
    by (simp add: idx_def example_getObjId_def id_of_def target_id_def)
qed

text \<open>
  Claim C6 at a failing input. \<open>parseSubscription\<close> tests the host only: the record
  \<^verbatim>\<open>1 12 99 #7 class\<close>, whose signal identifier \<^verbatim>\<open>99\<close> is unknown to \<open>getObject\<close>, is
  decoded to an edge with \<^verbatim>\<open>undefined\<close> in the place of the signal, and likewise for the
  target of \<^verbatim>\<open>3 12 5 99\<close>; a record whose host is unknown is dropped.
\<close>

theorem parse_keeps_edge_with_unresolved_signal:
  "example_getObject ''99'' = JUndefined \<and>
   parseSubscription example_runtime ''1 12 99 #7 class'' example_getObject
     = Inr (Some [JNum 1, JRef 1, JUndefined, JRef 3, JStr ''class'', JUndefined]) \<and>
   parseSubscription example_runtime ''3 12 5 99'' example_getObject
     = Inr (Some [JNum 3, JRef 1, JRef 2, JUndefined, JUndefined]) \<and>
   parseSubscription example_runtime ''1 99 5 #7 class'' example_getObject = Inr None"
  by code_simp

section \<open>The manager: loops as filters\<close>

lemma splice_loop_filter:
  "splice_loop found i ss = take i ss @ filter (\<lambda>s. \<not> found s) (drop i ss)"
proof (induction found i ss rule: splice_loop.induct)
  case (1 found i ss)
  show ?case
  proof (cases "i < length ss")
    case False
    then show ?thesis by (simp add: splice_loop.simps)
  next
    case True
    note lt = this
    have d: "drop i ss = ss ! i # drop (Suc i) ss" using lt by (simp add: Cons_nth_drop_Suc)
    show ?thesis
    proof (cases "found (ss ! i)")
      case True
      have "splice_loop found i ss = splice_loop found i (take i ss @ drop (Suc i) ss)"
        using lt True by (subst splice_loop.simps) simp
      also have "\<dots> = take i (take i ss @ drop (Suc i) ss) @
                        filter (\<lambda>s. \<not> found s) (drop i (take i ss @ drop (Suc i) ss))"
        using "1.IH"(1)[OF lt True] .
      also have "\<dots> = take i ss @ filter (\<lambda>s. \<not> found s) (drop (Suc i) ss)"
        using lt by simp
      finally show ?thesis using d True by simp
    next
      case False
      have "splice_loop found i ss = splice_loop found (Suc i) ss"
        using lt False by (subst splice_loop.simps) simp
      also have "\<dots> = take (Suc i) ss @ filter (\<lambda>s. \<not> found s) (drop (Suc i) ss)"
        using "1.IH"(2)[OF lt False] .
      finally show ?thesis using d False lt by (simp add: take_Suc_conv_app_nth)
    qed
  qed
qed

lemma splice_loop_0: "splice_loop found 0 ss = filter (\<lambda>s. \<not> found s) ss"
  by (simp add: splice_loop_filter)

lemma notify_loop_filter:
  "notify_loop key ss calls =
     calls @ filter (\<lambda>sub. \<not> (truthy key \<and> truthy (trailing sub) \<and> \<not> strict_eq (trailing sub) key)) ss"
  by (induction ss arbitrary: calls) (simp_all add: trailing_def Let_def)

lemma is_key_strict_eq: "is_key a \<Longrightarrow> is_key b \<Longrightarrow> strict_eq a b = (a = b)"
  by (cases a; cases b) (auto simp: strict_eq_def)

lemma is_key_truthy: "is_key a \<Longrightarrow> truthy a = (\<not> absent_or_empty a)"
  by (cases a) (auto simp: absent_or_empty_def)

lemma is_key_opt_val [simp]: "is_key (opt_val key)"
  by (cases key) auto

lemma addToGroup_fields [simp]:
  "subs (addToGroup g m s) = subs s"
  "nextManager (addToGroup g m s) = nextManager s"
  "notifyChange (addToGroup g m s) = notifyChange s"
  by (simp_all add: addToGroup_def Let_def split: option.splits)

lemma same_A_list_ex:
  assumes "grp \<noteq> JNaN"
  shows "list_ex (\<lambda>e. strict_eq (idx e 0) (JNum 0) \<and> strict_eq (idx e 1) grp \<and>
                       strict_eq (idx e 2) (opt_val key)) ss
         = (filter (same_A grp key) ss \<noteq> [])"
proof -
  have "\<And>e. (strict_eq (idx e 0) (JNum 0) \<and> strict_eq (idx e 1) grp \<and> strict_eq (idx e 2) (opt_val key))
             = same_A grp key e"
    using assms by (cases key) (auto simp: strict_eq_def same_A_def)
  then show ?thesis by (simp add: list_ex_iff filter_empty_conv)
qed

lemma addSub_A:
  assumes "grp \<noteq> JNaN"
  shows "addSub this [JNum 0, grp] key s =
           (if filter (same_A grp key) (subs s this) \<noteq> [] then s
            else addToGroup grp this
                   (s\<lparr>subs := (subs s)(this := subs s this @ [[JNum 0, grp, opt_val key]])\<rparr>))"
  using same_A_list_ex[OF assms, of key "subs s this"]
  by (simp add: addSub_def idx_def strict_eq_def Let_def)

lemma addSub_other:
  assumes "idx sub 0 \<noteq> JNum 0"
  shows "addSub this sub key s =
           addToGroup (idx sub 1) this (s\<lparr>subs := (subs s)(this := subs s this @ [sub @ [opt_val key]])\<rparr>)"
  using assms by (simp add: addSub_def strict_eq_def Let_def)

lemma same_A_new [simp]: "same_A grp key [JNum 0, grp, opt_val key]"
  by (simp add: same_A_def idx_def)

section \<open>The manager: adding an edge twice\<close>

text \<open>
  Claim C2, as amended. Adding the tag 0 edge \<^verbatim>\<open>[0, group]\<close> twice with the same key to
  a manager: the second \<open>addSub\<close> changes nothing; and when the manager stored at most one
  tag 0 edge of that group and key before, it stores exactly one afterwards. An edge of
  another tag is stored once per call: adding it twice appends it twice.
\<close>

theorem addSub_deduplicates_tag0:
  assumes "grp \<noteq> JNaN"
  shows "addSub this [JNum 0, grp] key (addSub this [JNum 0, grp] key s) = addSub this [JNum 0, grp] key s \<and>
         (length (filter (same_A grp key) (subs s this)) \<le> 1 \<longrightarrow>
            length (filter (same_A grp key)
                      (subs (addSub this [JNum 0, grp] key (addSub this [JNum 0, grp] key s)) this)) = 1) \<and>
         (idx sub 0 \<noteq> JNum 0 \<longrightarrow>
            subs (addSub this sub key (addSub this sub key s)) this
              = subs s this @ [sub @ [opt_val key], sub @ [opt_val key]])"
proof (intro conjI impI)
  let ?s1 = "addSub this [JNum 0, grp] key s"
  have held: "filter (same_A grp key) (subs ?s1 this) \<noteq> []"
    by (simp add: addSub_A[OF assms])
  show twice: "addSub this [JNum 0, grp] key ?s1 = ?s1"
    using held by (subst addSub_A[OF assms]) simp
  assume "length (filter (same_A grp key) (subs s this)) \<le> 1"
  then have "length (filter (same_A grp key) (subs ?s1 this)) = 1"
    by (cases "filter (same_A grp key) (subs s this)") (auto simp: addSub_A[OF assms])
  then show "length (filter (same_A grp key) (subs (addSub this [JNum 0, grp] key ?s1) this)) = 1"
    by (simp add: twice)
next
  assume "idx sub 0 \<noteq> JNum 0"
  then show "subs (addSub this sub key (addSub this sub key s)) this
              = subs s this @ [sub @ [opt_val key], sub @ [opt_val key]]"
    by (simp add: addSub_other)
qed

theorem addSub_deduplicates_tag0_witness:
  "JRef 1 \<noteq> JNaN \<and>
   length (filter (same_A (JRef 1) (Some ''k1'')) (subs (snd (createManager None createSubscriptionManager)) 0)) \<le> 1 \<and>
   subs (addSub 0 [JNum 0, JRef 1] (Some ''k1'') (addSub 0 [JNum 0, JRef 1] (Some ''k1'')
           (snd (createManager None createSubscriptionManager)))) 0 = [[JNum 0, JRef 1, JStr ''k1'']] \<and>
   idx [JNum 1, JRef 1, JRef 2, JRef 3, JStr ''class''] 0 \<noteq> JNum 0 \<and>
   subs (addSub 0 [JNum 1, JRef 1, JRef 2, JRef 3, JStr ''class''] None
          (addSub 0 [JNum 1, JRef 1, JRef 2, JRef 3, JStr ''class''] None
             (snd (createManager None createSubscriptionManager)))) 0
     = [[JNum 1, JRef 1, JRef 2, JRef 3, JStr ''class'', JUndefined],
        [JNum 1, JRef 1, JRef 2, JRef 3, JStr ''class'', JUndefined]]"
proof -
  let ?s = "snd (createManager None createSubscriptionManager)"
  have g: "JRef 1 \<noteq> JNaN" by simp
  have s0: "subs ?s 0 = []" by code_simp
  have t: "idx [JNum 1, JRef 1, JRef 2, JRef 3, JStr ''class''] 0 \<noteq> JNum 0" by code_simp
  have one: "subs (addSub 0 [JNum 0, JRef 1] (Some ''k1'') ?s) 0 = [[JNum 0, JRef 1, JStr ''k1'']]"
    by code_simp
  show ?thesis
    using g t one addSub_deduplicates_tag0 [OF g, of 0 "Some ''k1''" ?s "[JNum 1, JRef 1, JRef 2, JRef 3, JStr ''class'']"]
      addSub_deduplicates_tag0 [OF g, of 0 None ?s "[JNum 1, JRef 1, JRef 2, JRef 3, JStr ''class'']"]
    by (simp add: s0)
qed

text \<open>
  Claim C2, as stated, fails on a manager that was created with two equal tag 0 edges:
  \<open>addSubs\<close>, which the constructor calls with the initial edges, does not deduplicate,
  \<open>addSub\<close> adds nothing and removes nothing, and two edges of the group and key remain.
\<close>

theorem bulk_duplicates_counterexample:
  "subs (addSub 0 [JNum 0, JRef 1] (Some ''k1'')
          (addSub 0 [JNum 0, JRef 1] (Some ''k1'')
             (snd (createManager (Some [[JNum 0, JRef 1, JStr ''k1''], [JNum 0, JRef 1, JStr ''k1'']])
                     createSubscriptionManager)))) 0
     = [[JNum 0, JRef 1, JStr ''k1''], [JNum 0, JRef 1, JStr ''k1'']] \<and>
   length (filter (same_A (JRef 1) (Some ''k1''))
             (subs (addSub 0 [JNum 0, JRef 1] (Some ''k1'')
                      (addSub 0 [JNum 0, JRef 1] (Some ''k1'')
                         (snd (createManager
                                 (Some [[JNum 0, JRef 1, JStr ''k1''], [JNum 0, JRef 1, JStr ''k1'']])
                                 createSubscriptionManager)))) 0)) = 2"
  by code_simp

section \<open>The manager: notification\<close>

text \<open>
  Claim C3, as amended. When the trailing element of every stored edge is a key (a string
  or \<^verbatim>\<open>undefined\<close>), \<open>notifySubs\<close> calls \<^verbatim>\<open>notifyChange\<close> once, in insertion order,
  for each stored edge whose key is absent or empty, or equals the given key, or when the
  given key is absent or empty, and for no other edge; the stored edges and the group
  index are unchanged.
\<close>

theorem notifySubs_notifies_matching_edges:
  assumes "\<forall>e \<in> set (subs s this). is_key (trailing e)"
  shows "notifyChange (notifySubs this key s) =
           notifyChange s @
           filter (\<lambda>e. absent_or_empty (trailing e) \<or> trailing e = opt_val key \<or>
                        absent_or_empty (opt_val key)) (subs s this) \<and>
         subs (notifySubs this key s) = subs s \<and>
         groupToManagers (notifySubs this key s) = groupToManagers s \<and>
         arrays (notifySubs this key s) = arrays s"
proof -
  have "filter (\<lambda>sub. \<not> (truthy (opt_val key) \<and> truthy (trailing sub) \<and>
                          \<not> strict_eq (trailing sub) (opt_val key))) (subs s this) =
        filter (\<lambda>e. absent_or_empty (trailing e) \<or> trailing e = opt_val key \<or>
                     absent_or_empty (opt_val key)) (subs s this)"
    using assms by (intro filter_cong refl) (auto simp: is_key_strict_eq is_key_truthy)
  then show ?thesis by (simp add: notifySubs_def notify_loop_filter)
qed

theorem notifySubs_notifies_matching_edges_witness:
  "notifyChange (notifySubs 0 (Some ''k2'') (addSub 0 [JNum 0, JRef 2] None example_container))
     = [[JNum 0, JRef 2, JUndefined]] \<and>
   notifyChange (notifySubs 0 (Some ''k1'') (addSub 0 [JNum 0, JRef 2] None example_container))
     = [[JNum 0, JRef 1, JStr ''k1''], [JNum 0, JRef 2, JUndefined]] \<and>
   notifyChange (notifySubs 0 None (addSub 0 [JNum 0, JRef 2] None example_container))
     = [[JNum 0, JRef 1, JStr ''k1''], [JNum 0, JRef 2, JUndefined]]"
proof -
  let ?s = "addSub 0 [JNum 0, JRef 2] None example_container"
  have ss: "subs ?s 0 = [[JNum 0, JRef 1, JStr ''k1''], [JNum 0, JRef 2, JUndefined]]"
    and nc: "notifyChange ?s = []" by code_simp+
  have h: "\<forall>e \<in> set (subs ?s 0). is_key (trailing e)"
    by (simp add: ss trailing_def idx_def)
  show ?thesis
    using notifySubs_notifies_matching_edges [OF h, of "Some ''k2''"]
      notifySubs_notifies_matching_edges [OF h, of "Some ''k1''"]
      notifySubs_notifies_matching_edges [OF h, of None]
    by (simp add: ss nc trailing_def idx_def absent_or_empty_def)
qed

text \<open>
  Claim C3, as stated, fails for the empty string: \<open>notifySubs\<close> with the key \<^verbatim>\<open>''\<close>
  notifies the edge of key \<^verbatim>\<open>k1\<close>, whose key is neither absent nor equal to the given
  key, while the given key is not absent.
\<close>

theorem empty_notify_key_counterexample:
  "subs example_container 0 = [[JNum 0, JRef 1, JStr ''k1'']] \<and>
   notifyChange (notifySubs 0 (Some '''') example_container) = [[JNum 0, JRef 1, JStr ''k1'']] \<and>
   trailing [JNum 0, JRef 1, JStr ''k1''] = JStr ''k1'' \<and>
   JStr ''k1'' \<noteq> JUndefined \<and> JStr ''k1'' \<noteq> opt_val (Some '''') \<and> opt_val (Some '''') \<noteq> JUndefined"
  by code_simp

section \<open>The group index covers the stored edges in every state\<close>

lemma arrays_ok_fresh: "arrays_ok s \<Longrightarrow> groupToManagers s g = Some a \<Longrightarrow> a \<noteq> nextArray s"
  by (auto simp: arrays_ok_def)

lemma arrays_ok_inj:
  "arrays_ok s \<Longrightarrow> groupToManagers s g = Some a \<Longrightarrow> groupToManagers s g' = Some a \<Longrightarrow> g = g'"
  by (auto simp: arrays_ok_def inj_on_def dom_def)

lemma addToGroup_arrays_ok:
  assumes "arrays_ok s"
  shows "arrays_ok (addToGroup g m s)"
proof (cases "groupToManagers s g")
  case None
  have "inj_on ((groupToManagers s)(g \<mapsto> nextArray s)) (insert g (dom (groupToManagers s)))"
    unfolding inj_on_def
    using arrays_ok_fresh[OF assms] arrays_ok_inj[OF assms] by (auto split: if_splits) blast+
  moreover have "\<And>g' a. groupToManagers s g' = Some a \<Longrightarrow> a < Suc (nextArray s)"
    using assms by (auto simp: arrays_ok_def less_Suc_eq)
  ultimately show ?thesis using None
    by (auto simp: arrays_ok_def addToGroup_def Let_def split: if_splits)
next
  case (Some a)
  then show ?thesis using assms
    by (auto simp: arrays_ok_def addToGroup_def Let_def)
qed

lemma addToGroup_listed: "listed (addToGroup g m s) g m"
  by (cases "groupToManagers s g") (auto simp: listed_def addToGroup_def Let_def)

lemma addToGroup_listed_mono:
  assumes "arrays_ok s" "listed s g' m'"
  shows "listed (addToGroup g m s) g' m'"
proof (cases "groupToManagers s g")
  case None
  from assms(2) obtain a where a: "groupToManagers s g' = Some a" "m' \<in> set (arrays s a)"
    by (auto simp: listed_def)
  have "a \<noteq> nextArray s" using arrays_ok_fresh[OF assms(1) a(1)] .
  moreover have "g' \<noteq> g" using None a(1) by auto
  ultimately show ?thesis using None a
    by (auto simp: listed_def addToGroup_def Let_def)
next
  case (Some a)
  then show ?thesis using assms
    by (auto simp: listed_def addToGroup_def Let_def)
qed

lemma fold_addToGroup:
  assumes "arrays_ok s"
  shows "arrays_ok (fold (\<lambda>sub. addToGroup (idx sub 1) m) xs s) \<and>
         subs (fold (\<lambda>sub. addToGroup (idx sub 1) m) xs s) = subs s \<and>
         nextManager (fold (\<lambda>sub. addToGroup (idx sub 1) m) xs s) = nextManager s \<and>
         (\<forall>g' m'. listed s g' m' \<longrightarrow> listed (fold (\<lambda>sub. addToGroup (idx sub 1) m) xs s) g' m') \<and>
         (\<forall>x \<in> set xs. listed (fold (\<lambda>sub. addToGroup (idx sub 1) m) xs s) (idx x 1) m)"
  using assms
proof (induction xs arbitrary: s)
  case Nil
  then show ?case by simp
next
  case (Cons x xs)
  let ?s1 = "addToGroup (idx x 1) m s"
  have ok1: "arrays_ok ?s1" using Cons.prems by (rule addToGroup_arrays_ok)
  note IH = Cons.IH[OF ok1]
  have mono: "\<And>g' m'. listed s g' m' \<Longrightarrow> listed ?s1 g' m'"
    using Cons.prems by (rule addToGroup_listed_mono)
  show ?case using IH mono addToGroup_listed[of "idx x 1" m s] by auto
qed

lemma index_ok_addSubs:
  assumes "index_ok s" "this < nextManager s"
  shows "index_ok (addSubs this new s)"
proof -
  let ?s1 = "s\<lparr>subs := (subs s)(this := subs s this @ new)\<rparr>"
  let ?s2 = "fold (\<lambda>sub. addToGroup (idx sub 1) this) (subs ?s1 this) ?s1"
  have ok1: "arrays_ok ?s1" using assms(1) by (simp add: index_ok_def arrays_ok_def)
  note F = fold_addToGroup[OF ok1, of this "subs ?s1 this"]
  have l1: "\<And>g m. listed s g m \<Longrightarrow> listed ?s1 g m" by (simp add: listed_def)
  have "registered ?s2"
    unfolding registered_def
  proof (intro allI impI)
    fix m e assume e: "e \<in> set (subs ?s2 m)"
    then have e1: "e \<in> set (subs ?s1 m)" using F by simp
    show "listed ?s2 (idx e 1) m"
    proof (cases "m = this")
      case True
      then show ?thesis using F e1 by blast
    next
      case False
      then have "e \<in> set (subs s m)" using e1 by simp
      then have "listed s (idx e 1) m" using assms(1) by (auto simp: index_ok_def registered_def)
      then show ?thesis using F l1 by blast
    qed
  qed
  moreover have "arrays_ok ?s2" using F by simp
  moreover have "\<forall>m. nextManager ?s2 \<le> m \<longrightarrow> subs ?s2 m = []"
    using F assms by (auto simp: index_ok_def)
  ultimately show ?thesis by (simp add: index_ok_def addSubs_def Let_def)
qed

lemma index_ok_init: "index_ok createSubscriptionManager"
  by (simp add: index_ok_def registered_def arrays_ok_def createSubscriptionManager_def)

lemma index_ok_createManager:
  assumes "index_ok s"
  shows "index_ok (snd (createManager initialMap s))"
proof -
  let ?s1 = "s\<lparr>subs := (subs s)(nextManager s := []), nextManager := Suc (nextManager s)\<rparr>"
  have "subs ?s1 = subs s" using assms by (auto simp: index_ok_def fun_eq_iff)
  then have ok1: "index_ok ?s1" using assms
    by (auto simp: index_ok_def registered_def listed_def arrays_ok_def)
  show ?thesis
  proof (cases initialMap)
    case None
    then show ?thesis using ok1 by (simp add: createManager_def Let_def)
  next
    case (Some new)
    have "index_ok (addSubs (nextManager s) new ?s1)"
      by (rule index_ok_addSubs[OF ok1]) simp
    then show ?thesis using Some by (simp add: createManager_def Let_def)
  qed
qed

lemma index_ok_addSub:
  assumes "index_ok s" "this < nextManager s" "2 \<le> length sub"
  shows "index_ok (addSub this sub key s)"
proof -
  let ?s1 = "s\<lparr>subs := (subs s)(this := subs s this @ [sub @ [opt_val key]])\<rparr>"
  let ?s2 = "addToGroup (idx sub 1) this ?s1"
  have g: "idx (sub @ [opt_val key]) 1 = idx sub 1"
    using assms(3) by (auto simp: idx_def nth_append)
  have ok1: "arrays_ok ?s1" using assms(1) by (simp add: index_ok_def arrays_ok_def)
  have l1: "\<And>g m. listed s g m \<Longrightarrow> listed ?s1 g m" by (simp add: listed_def)
  show ?thesis
  proof (cases "strict_eq (idx sub 0) (JNum 0) \<and>
            list_ex (\<lambda>e. strict_eq (idx e 0) (JNum 0) \<and> strict_eq (idx e 1) (idx sub 1) \<and>
                         strict_eq (idx e 2) (opt_val key)) (subs s this)")
    case True
    then show ?thesis using assms(1) by (simp add: addSub_def Let_def)
  next
    case False
    have reg: "registered ?s2"
      unfolding registered_def
    proof (intro allI impI)
      fix m e assume "e \<in> set (subs ?s2 m)"
      then have e1: "e \<in> set (subs ?s1 m)" by simp
      show "listed ?s2 (idx e 1) m"
      proof (cases "m = this \<and> e = sub @ [opt_val key]")
        case True
        then show ?thesis using g addToGroup_listed[of "idx sub 1" this ?s1] by simp
      next
        case False
        then have "e \<in> set (subs s m)" using e1 by (auto split: if_splits)
        then have "listed s (idx e 1) m" using assms(1) by (auto simp: index_ok_def registered_def)
        then show ?thesis using l1 addToGroup_listed_mono[OF ok1] by blast
      qed
    qed
    have "arrays_ok ?s2" using ok1 by (rule addToGroup_arrays_ok)
    moreover have "\<forall>m. nextManager ?s2 \<le> m \<longrightarrow> subs ?s2 m = []"
      using assms by (auto simp: index_ok_def)
    ultimately show ?thesis using reg False by (auto simp add: index_ok_def addSub_def Let_def)
  qed
qed

lemma set_splice_loop: "set (splice_loop found 0 ss) \<subseteq> set ss"
  by (auto simp: splice_loop_0)

lemma index_ok_shrink:
  assumes "index_ok s" "\<And>m. set (subs s' m) \<subseteq> set (subs s m)"
    "groupToManagers s' = groupToManagers s" "arrays s' = arrays s" "nextArray s' = nextArray s"
    "nextManager s' = nextManager s"
  shows "index_ok s'"
proof -
  have "subs s' m = []" if "nextManager s \<le> m" for m
  proof -
    have "subs s m = []" using assms(1) that by (simp add: index_ok_def)
    then show ?thesis using assms(2)[of m] by simp
  qed
  moreover have "registered s'"
    unfolding registered_def
  proof (intro allI impI)
    fix m e assume "e \<in> set (subs s' m)"
    then have "e \<in> set (subs s m)" using assms(2) by blast
    then have "listed s (idx e 1) m" using assms(1) by (simp add: index_ok_def registered_def)
    then show "listed s' (idx e 1) m" using assms(3,4) by (simp add: listed_def)
  qed
  moreover have "arrays_ok s'" using assms by (simp add: index_ok_def arrays_ok_def)
  ultimately show ?thesis using assms(6) by (simp add: index_ok_def)
qed

lemma index_ok_unsubGroup: "index_ok s \<Longrightarrow> index_ok (unsubGroup this g s)"
  by (erule index_ok_shrink) (auto simp: unsubGroup_def splice_loop_0)

lemma index_ok_unsubEntry: "index_ok s \<Longrightarrow> index_ok (unsubEntry this entry s)"
  by (erule index_ok_shrink) (auto simp: unsubEntry_def Let_def splice_loop_0)

lemma index_ok_notifySubs: "index_ok s \<Longrightarrow> index_ok (notifySubs this key s)"
  by (erule index_ok_shrink) (auto simp: notifySubs_def)

lemma fold_unsubEntry:
  "(\<forall>m. set (subs (fold (\<lambda>manager. unsubEntry manager signal) ms s) m) \<subseteq> set (subs s m)) \<and>
   groupToManagers (fold (\<lambda>manager. unsubEntry manager signal) ms s) = groupToManagers s \<and>
   arrays (fold (\<lambda>manager. unsubEntry manager signal) ms s) = arrays s \<and>
   nextArray (fold (\<lambda>manager. unsubEntry manager signal) ms s) = nextArray s \<and>
   nextManager (fold (\<lambda>manager. unsubEntry manager signal) ms s) = nextManager s"
proof (induction ms arbitrary: s)
  case Nil
  then show ?case by simp
next
  case (Cons x xs)
  have "\<And>m. set (subs (unsubEntry x signal s) m) \<subseteq> set (subs s m)"
    by (auto simp: unsubEntry_def Let_def splice_loop_0)
  moreover have "groupToManagers (unsubEntry x signal s) = groupToManagers s"
    "arrays (unsubEntry x signal s) = arrays s" "nextArray (unsubEntry x signal s) = nextArray s"
    "nextManager (unsubEntry x signal s) = nextManager s"
    by (auto simp: unsubEntry_def Let_def)
  ultimately show ?case using Cons.IH[of "unsubEntry x signal s"] by (simp; blast)
qed

lemma index_ok_clearSignal:
  assumes "index_ok s"
  shows "index_ok (clearSignal signal s)"
proof (cases "groupToManagers s (idx signal 1)")
  case None
  then show ?thesis using assms by (simp add: clearSignal_def)
next
  case (Some a)
  have "index_ok (fold (\<lambda>manager. unsubEntry manager signal) (arrays s a) s)"
    using fold_unsubEntry[of signal "arrays s a" s] by (intro index_ok_shrink[OF assms]) auto
  then show ?thesis using Some by (simp add: clearSignal_def)
qed

lemma fold_unsubGroup:
  "subs (fold (\<lambda>manager. unsubGroup manager g) ms s) =
     (\<lambda>m. if m \<in> set ms then filter (\<lambda>e. \<not> strict_eq (idx e 1) g) (subs s m) else subs s m) \<and>
   groupToManagers (fold (\<lambda>manager. unsubGroup manager g) ms s) = groupToManagers s \<and>
   arrays (fold (\<lambda>manager. unsubGroup manager g) ms s) = arrays s \<and>
   nextArray (fold (\<lambda>manager. unsubGroup manager g) ms s) = nextArray s \<and>
   nextManager (fold (\<lambda>manager. unsubGroup manager g) ms s) = nextManager s \<and>
   notifyChange (fold (\<lambda>manager. unsubGroup manager g) ms s) = notifyChange s"
proof (induction ms arbitrary: s)
  case Nil
  then show ?case by simp
next
  case (Cons x xs)
  show ?case using Cons.IH[of "unsubGroup x g s"]
    by (auto simp: unsubGroup_def splice_loop_0 fun_eq_iff)
qed

lemma strict_eq_group: "g \<noteq> JNaN \<Longrightarrow> strict_eq v g = (v = g)"
  by (auto simp: strict_eq_def)

lemma clearSub_subs:
  assumes "index_ok s" "g \<noteq> JNaN"
  shows "subs (clearSub g s) m = filter (\<lambda>e. idx e 1 \<noteq> g) (subs s m)"
proof -
  have reg: "\<And>e. e \<in> set (subs s m) \<Longrightarrow> listed s (idx e 1) m"
    using assms(1) by (simp add: index_ok_def registered_def)
  show ?thesis
  proof (cases "groupToManagers s g")
    case None
    have "\<And>e. e \<in> set (subs s m) \<Longrightarrow> idx e 1 \<noteq> g"
      using reg None by (fastforce simp: listed_def)
    then have "filter (\<lambda>e. idx e 1 \<noteq> g) (subs s m) = subs s m" by (simp add: filter_id_conv)
    then show ?thesis using None by (simp add: clearSub_def)
  next
    case (Some a)
    show ?thesis
    proof (cases "m \<in> set (arrays s a)")
      case True
      then show ?thesis using Some assms(2)
        by (simp add: clearSub_def Let_def fold_unsubGroup strict_eq_group)
    next
      case False
      have "\<And>e. e \<in> set (subs s m) \<Longrightarrow> idx e 1 \<noteq> g"
        using reg Some False by (fastforce simp: listed_def)
      then have "filter (\<lambda>e. idx e 1 \<noteq> g) (subs s m) = subs s m" by (simp add: filter_id_conv)
      then show ?thesis using Some False by (simp add: clearSub_def Let_def fold_unsubGroup)
    qed
  qed
qed

lemma index_ok_clearSub:
  assumes "index_ok s" "g \<noteq> JNaN"
  shows "index_ok (clearSub g s)"
proof (cases "groupToManagers s g")
  case None
  then show ?thesis using assms(1) by (simp add: clearSub_def)
next
  case (Some a)
  let ?s' = "clearSub g s"
  have ok: "arrays_ok s" using assms(1) by (simp add: index_ok_def)
  have gtm: "groupToManagers ?s' = (groupToManagers s)(g := None)"
    and arr: "arrays ?s' = (arrays s)(a := [])"
    and nxt: "nextArray ?s' = nextArray s" "nextManager ?s' = nextManager s"
    using Some by (simp_all add: clearSub_def Let_def fold_unsubGroup)
  have "registered ?s'"
    unfolding registered_def
  proof (intro allI impI)
    fix m e assume "e \<in> set (subs ?s' m)"
    then have e: "e \<in> set (subs s m)" "idx e 1 \<noteq> g"
      by (simp_all add: clearSub_subs[OF assms])
    then have "listed s (idx e 1) m" using assms(1) by (simp add: index_ok_def registered_def)
    then obtain a' where a': "groupToManagers s (idx e 1) = Some a'" "m \<in> set (arrays s a')"
      by (auto simp: listed_def)
    have "a' \<noteq> a" using arrays_ok_inj[OF ok a'(1), of g] Some e(2) by auto
    then show "listed ?s' (idx e 1) m" using a' e(2) by (simp add: listed_def gtm arr)
  qed
  moreover have "arrays_ok ?s'"
    using ok unfolding arrays_ok_def gtm nxt
    by (auto simp: inj_on_def dom_def split: if_splits)
  moreover have "\<forall>m. nextManager ?s' \<le> m \<longrightarrow> subs ?s' m = []"
    using assms(1) by (simp add: clearSub_subs[OF assms] nxt index_ok_def)
  ultimately show ?thesis by (simp add: index_ok_def)
qed

lemma reachable_index_ok: "reachable s \<Longrightarrow> index_ok s"
proof (induction rule: reachable.induct)
  case r_init
  show ?case by (rule index_ok_init)
next
  case (r_createManager s initialMap)
  then show ?case by (simp add: index_ok_createManager)
next
  case (r_addSubs s this new)
  then show ?case by (simp add: index_ok_addSubs)
next
  case (r_addSub s this sub key)
  then show ?case by (simp add: index_ok_addSub)
next
  case (r_unsubGroup s this grp)
  then show ?case by (simp add: index_ok_unsubGroup)
next
  case (r_unsubEntry s this entry)
  then show ?case by (simp add: index_ok_unsubEntry)
next
  case (r_notifySubs s this key)
  then show ?case by (simp add: index_ok_notifySubs)
next
  case (r_clearSub s grp)
  then show ?case by (simp add: index_ok_clearSub)
next
  case (r_clearSignal s signal)
  then show ?case by (simp add: index_ok_clearSignal)
qed

lemma notified_filter:
  "notified this key s =
     filter (\<lambda>sub. \<not> (truthy (opt_val key) \<and> truthy (trailing sub) \<and>
                       \<not> strict_eq (trailing sub) (opt_val key))) (subs s this)"
  by (simp add: notified_def notifySubs_def notify_loop_filter)

section \<open>Clearing a group\<close>

text \<open>
  Claim C4. In every state of a container and for every group: after \<open>clearSub\<close> every
  manager stores its former edges without those of the group, in their former order (so a
  manager that held an edge of the group holds none); the group has no entry in the group
  index and the array it had is empty; and a following \<open>notifySubs\<close> on any manager, with
  any key, calls \<^verbatim>\<open>notifyChange\<close> for no edge of the group.
\<close>

theorem clearSub_removes_group:
  assumes "reachable s" "grp \<noteq> JNaN"
  shows "(\<forall>m. subs (clearSub grp s) m = filter (\<lambda>e. idx e 1 \<noteq> grp) (subs s m)) \<and>
         groupToManagers (clearSub grp s) grp = None \<and>
         (\<forall>a. groupToManagers s grp = Some a \<longrightarrow> arrays (clearSub grp s) a = []) \<and>
         (\<forall>m key. \<forall>e \<in> set (notified m key (clearSub grp s)). idx e 1 \<noteq> grp)"
proof -
  have ok: "index_ok s" using assms(1) by (rule reachable_index_ok)
  have subs: "\<And>m. subs (clearSub grp s) m = filter (\<lambda>e. idx e 1 \<noteq> grp) (subs s m)"
    by (rule clearSub_subs[OF ok assms(2)])
  have "groupToManagers (clearSub grp s) grp = None"
    by (cases "groupToManagers s grp") (simp_all add: clearSub_def Let_def fold_unsubGroup)
  moreover have "\<forall>a. groupToManagers s grp = Some a \<longrightarrow> arrays (clearSub grp s) a = []"
    by (simp add: clearSub_def Let_def fold_unsubGroup)
  moreover have "\<forall>m key. \<forall>e \<in> set (notified m key (clearSub grp s)). idx e 1 \<noteq> grp"
    by (simp add: notified_filter subs)
  ultimately show ?thesis using subs by simp
qed

theorem clearSub_removes_group_witness:
  "subs (addSub 0 [JNum 0, JRef 2] None example_container) 0
     = [[JNum 0, JRef 1, JStr ''k1''], [JNum 0, JRef 2, JUndefined]] \<and>
   subs (clearSub (JRef 1) (addSub 0 [JNum 0, JRef 2] None example_container)) 0
     = [[JNum 0, JRef 2, JUndefined]] \<and>
   groupToManagers (addSub 0 [JNum 0, JRef 2] None example_container) (JRef 1) = Some 0 \<and>
   arrays (addSub 0 [JNum 0, JRef 2] None example_container) 0 = [0] \<and>
   groupToManagers (clearSub (JRef 1) (addSub 0 [JNum 0, JRef 2] None example_container)) (JRef 1) = None \<and>
   arrays (clearSub (JRef 1) (addSub 0 [JNum 0, JRef 2] None example_container)) 0 = [] \<and>
   notified 0 None (clearSub (JRef 1) (addSub 0 [JNum 0, JRef 2] None example_container))
     = [[JNum 0, JRef 2, JUndefined]]"
proof -
  let ?fresh = "snd (createManager None createSubscriptionManager)"
  let ?s = "addSub 0 [JNum 0, JRef 2] None example_container"
  have n0: "0 < nextManager ?fresh" by code_simp
  have n1: "0 < nextManager example_container" by code_simp
  have r0: "reachable ?fresh" by (rule r_createManager[OF r_init])
  have r1: "reachable example_container"
    unfolding example_container_def by (rule r_addSub[OF r0 n0]) simp
  have r: "reachable ?s" by (rule r_addSub[OF r1 n1]) simp
  have g: "JRef 1 \<noteq> JNaN" by simp
  have ev: "subs ?s 0 = [[JNum 0, JRef 1, JStr ''k1''], [JNum 0, JRef 2, JUndefined]]"
    "groupToManagers ?s (JRef 1) = Some 0" "arrays ?s 0 = [0]"
    "notified 0 None (clearSub (JRef 1) ?s) = [[JNum 0, JRef 2, JUndefined]]"
    by code_simp+
  show ?thesis
    using clearSub_removes_group [OF r g] ev by (simp add: idx_def)
qed

section \<open>The verifier ends\<close>

lemma isArray_ref: "isArray h u \<Longrightarrow> \<exists>a. u = JRef a \<and> a < length h"
  by (cases u) (auto simp: obj_at_def split: if_splits jskind.splits)

lemma isSerializableObject_ref: "isSerializableObject h u \<Longrightarrow> \<exists>a. u = JRef a \<and> a < length h"
  by (cases u) (auto simp: obj_at_def split: if_splits jskind.splits)

lemma finite_unseen [simp]: "finite (unseen h seen)"
  by (simp add: unseen_def)

lemma unseen_mono: "seen \<subseteq> seen' \<Longrightarrow> card (unseen h seen') \<le> card (unseen h seen)"
  by (rule card_mono) (auto simp: unseen_def)

lemma unseen_insert:
  assumes "a < length h" "JRef a \<notin> seen"
  shows "card (unseen h (insert (JRef a) seen)) < card (unseen h seen)"
proof (rule psubset_card_mono)
  show "finite (unseen h seen)" by simp
  show "unseen h (insert (JRef a) seen) \<subset> unseen h seen"
    using assms by (auto simp: unseen_def)
qed

lemma unseen_empty: "card (unseen h {}) = length h"
  by (simp add: unseen_def)

lemma forEach_verify_ends:
  assumes "\<And>v s c. seen1 \<subseteq> s \<Longrightarrow> ends (recurse v s c) v s" "seen1 \<subseteq> seen"
  shows "ends_set (forEach_verify recurse u ctx xs i expectIndex seen) seen"
  using assms(2)
proof (induction xs arbitrary: i expectIndex seen)
  case Nil
  then show ?case by (simp add: ends_set_def)
next
  case (Cons x xs)
  show ?case
  proof (cases x)
    case None
    then show ?thesis using Cons by simp
  next
    case (Some v)
    show ?thesis
    proof (cases "i = expectIndex")
      case False
      then show ?thesis using Some by (simp add: ends_set_def)
    next
      case True
      let ?r = "recurse v seen (ctx @ ''['' @ nat_str i @ '']'')"
      have e: "ends ?r v seen" using assms(1) Cons.prems by blast
      show ?thesis
      proof (cases ?r)
        case None
        then show ?thesis using e by (simp add: ends_def)
      next
        case (Some r)
        note r = this
        show ?thesis
        proof (cases r)
          case (Inl err)
          then show ?thesis using r \<open>x = Some v\<close> True by (simp add: ends_set_def)
        next
          case (Inr p)
          then have sub: "seen \<subseteq> snd p" using e r by (simp add: ends_def)
          then have "seen1 \<subseteq> snd p" using Cons.prems by blast
          from Cons.IH[OF this, of "Suc i" "i + 1"] sub
          show ?thesis using r Inr \<open>x = Some v\<close> True
            by (auto simp: ends_set_def split: option.splits sum.splits)
        qed
      qed
    qed
  qed
qed

lemma entries_verify_ends:
  assumes "\<And>v s c. seen1 \<subseteq> s \<Longrightarrow> ends (recurse v s c) v s" "seen1 \<subseteq> seen"
  shows "ends_set (entries_verify recurse ctx es seen) seen"
  using assms(2)
proof (induction es arbitrary: seen)
  case Nil
  then show ?case by (simp add: ends_set_def)
next
  case (Cons x es)
  obtain key item where x: "x = (key, item)" by (cases x)
  let ?r = "recurse item seen (ctx @ ''.'' @ key)"
  have e: "ends ?r item seen" using assms(1) Cons.prems by blast
  show ?case
  proof (cases ?r)
    case None
    then show ?thesis using e by (simp add: ends_def)
  next
    case (Some r)
    note r = this
    show ?thesis
    proof (cases r)
      case (Inl err)
      then show ?thesis using r x by (simp add: ends_set_def)
    next
      case (Inr p)
      then have sub: "seen \<subseteq> snd p" using e r by (simp add: ends_def)
      then have "seen1 \<subseteq> snd p" using Cons.prems by blast
      from Cons.IH[OF this] sub
      show ?thesis using r Inr x
        by (auto simp: ends_set_def split: option.splits sum.splits)
    qed
  qed
qed

lemma verifySerializable_rec_ends:
  "card (unseen h seen) < fuel \<Longrightarrow> ends (verifySerializable_rec fuel vf h v seen ctx pre) v seen"
proof (induction fuel arbitrary: v seen ctx pre)
  case 0
  then show ?case by simp
next
  case (Suc fuel)
  let ?u = "unwrapProxy h v"
  let ?rec = "\<lambda>x s c. verifySerializable_rec fuel vf h x s c None"
  have rec: "ends (?rec x s c) x s"
    if "?u \<notin> seen" "\<exists>a. ?u = JRef a \<and> a < length h" "insert ?u seen \<subseteq> s" for x s c
  proof -
    from that(2) obtain a where a: "?u = JRef a" "a < length h" by blast
    have "card (unseen h s) \<le> card (unseen h (insert ?u seen))" using that(3) by (rule unseen_mono)
    also have "\<dots> < card (unseen h seen)" using unseen_insert[OF a(2)] that(1) a(1) by simp
    finally have "card (unseen h s) < fuel" using Suc.prems by simp
    then show ?thesis by (rule Suc.IH)
  qed
  have A: "ends_set (forEach_verify ?rec ?u ctx (slots h ?u) 0 0 (insert ?u seen)) (insert ?u seen)"
    if "?u \<notin> seen" "isArray h ?u"
    using rec[OF that(1) isArray_ref[OF that(2)]]
    by (intro forEach_verify_ends[where ?seen1.0 = "insert ?u seen"]) auto
  have B: "ends_set (entries_verify ?rec ctx (entries h ?u) (insert ?u seen)) (insert ?u seen)"
    if "?u \<notin> seen" "isSerializableObject h ?u"
    using rec[OF that(1) isSerializableObject_ref[OF that(2)]]
    by (intro entries_verify_ends[where ?seen1.0 = "insert ?u seen"]) auto
  show ?case
    using A B
    by (auto simp: Let_def ends_def ends_set_def split: option.splits sum.splits)
qed

lemma seen_accepted:
  "unwrapProxy h v \<in> seen \<Longrightarrow>
   verifySerializable_rec (Suc fuel) vf h v seen ctx pre = Some (Inr (v, seen))"
  by (simp add: Let_def)

text \<open>
  Claim C7. On every value graph, cyclic or not, \<open>verifySerializable\<close> ends: with more
  fuel than the heap has objects the call returns or throws. A value whose unwrapped form
  is already in the set of visited values is accepted as it is, with the set unchanged and
  without a descent, so that meeting an ancestor again raises no error.
\<close>

theorem verifySerializable_terminates:
  assumes "length h < fuel"
  shows "verifySerializable fuel vf h v preMessage \<noteq> None \<and>
         (unwrapProxy h v \<in> seen \<longrightarrow>
            verifySerializable_rec fuel vf h v seen ctx preMessage = Some (Inr (v, seen)))"
proof
  have "ends (verifySerializable_rec fuel vf h v {} ''_'' preMessage) v {}"
    using assms by (intro verifySerializable_rec_ends) (simp add: unseen_empty)
  then show "verifySerializable fuel vf h v preMessage \<noteq> None"
    by (auto simp: verifySerializable_def ends_def split: option.splits sum.splits)
  from assms obtain n where "fuel = Suc n" by (cases fuel) auto
  then show "unwrapProxy h v \<in> seen \<longrightarrow>
            verifySerializable_rec fuel vf h v seen ctx preMessage = Some (Inr (v, seen))"
    by (auto simp: Let_def)
qed

theorem verifySerializable_terminates_witness:
  "verifySerializable 2 example_verifier cyclic_heap (JRef 0) None = Some (Inr (JRef 0)) \<and>
   verifySerializable_rec 2 example_verifier cyclic_heap (JRef 0) {JRef 0} ''_.self'' None
     = Some (Inr (JRef 0, {JRef 0}))"
proof -
  have l: "length cyclic_heap < 2" by (simp add: cyclic_heap_def)
  have u: "unwrapProxy cyclic_heap (JRef 0) \<in> {JRef 0}" by code_simp
  have v: "verifySerializable 2 example_verifier cyclic_heap (JRef 0) None = Some (Inr (JRef 0))"
    by code_simp
  show ?thesis
    using verifySerializable_terminates [OF l, of example_verifier "JRef 0" None "{JRef 0}" "''_.self''"] u v
    by simp
qed

section \<open>The verifier on arrays with holes\<close>

text \<open>
  Claim C8 at a failing input. \<^verbatim>\<open>forEach\<close> passes over holes, and a hole is noticed
  only at the next assigned index: the array \<^verbatim>\<open>[1, ,]\<close>, of length 2 with index 1 never
  assigned, and the array \<^verbatim>\<open>new Array(3)\<close> are accepted, while \<^verbatim>\<open>[1, , 3]\<close> is refused.
\<close>

theorem trailing_hole_accepted:
  "slots holes_heap (JRef 0) = [Some (JNum 1), None] \<and>
   verifySerializable 2 example_verifier holes_heap (JRef 0) None = Some (Inr (JRef 0)) \<and>
   slots holes_heap (JRef 1) = [None, None, None] \<and>
   verifySerializable 2 example_verifier holes_heap (JRef 1) None = Some (Inr (JRef 1)) \<and>
   slots holes_heap (JRef 2) = [Some (JNum 1), None, Some (JNum 3)] \<and>
   verifySerializable 2 example_verifier holes_heap (JRef 2) None
     = Some (Inl (QError_verifySerializable (JRef 2)))"
  by code_simp

section \<open>The verifier on primitives, dense arrays and plain objects\<close>

lemma plain_graph_at:
  assumes "plain_graph h R" "a \<in> R"
  shows "a < length h" "plain_kind R (kind (obj_at h a))" "plain_val R (proxyTarget (obj_at h a))"
  using assms by (simp_all add: plain_graph_def obj_at_def)

lemma unwrapProxy_plain:
  assumes "plain_graph h R" "plain_val R v"
  shows "plain_val R (unwrapProxy h v)"
proof (cases v)
  case (JRef a)
  then have "a \<in> R" using assms(2) by simp
  from plain_graph_at(3)[OF assms(1) this] show ?thesis
    using JRef assms(2) by (auto simp: unwrapProxy_def split: jsval.splits)
qed (simp_all add: unwrapProxy_def isObject_def)

lemma forEach_verify_dense:
  assumes "\<And>v s c e. plain_val R v \<Longrightarrow> recurse v s c \<noteq> Some (Inl e)"
    "list_all (plain_slot R) xs"
  shows "forEach_verify recurse u ctx xs i i seen \<noteq> Some (Inl e)"
  using assms(2)
proof (induction xs arbitrary: i seen)
  case Nil
  then show ?case by simp
next
  case (Cons x xs)
  then obtain v where v: "x = Some v" "plain_val R v" by (cases x) auto
  show ?case using Cons v assms(1)[OF v(2)]
    by (auto split: option.splits sum.splits)
qed

lemma entries_verify_plain:
  assumes "\<And>v s c e. plain_val R v \<Longrightarrow> recurse v s c \<noteq> Some (Inl e)"
    "list_all (\<lambda>e. plain_val R (snd e)) es"
  shows "entries_verify recurse ctx es seen \<noteq> Some (Inl e)"
  using assms(2)
proof (induction es arbitrary: seen)
  case Nil
  then show ?case by simp
next
  case (Cons x es)
  obtain key item where x: "x = (key, item)" by (cases x)
  then have "plain_val R item" using Cons.prems by simp
  from assms(1)[OF this] show ?case using Cons x
    by (auto split: option.splits sum.splits)
qed

lemma verifySerializable_rec_plain:
  assumes "plain_graph h R"
  shows "plain_val R v \<Longrightarrow> verifySerializable_rec fuel vf h v seen ctx pre \<noteq> Some (Inl e)"
proof (induction fuel arbitrary: v seen ctx pre e)
  case 0
  then show ?case by simp
next
  case (Suc fuel)
  let ?u = "unwrapProxy h v"
  let ?rec = "\<lambda>x s c. verifySerializable_rec fuel vf h x s c None"
  have u: "plain_val R ?u" using assms Suc.prems by (rule unwrapProxy_plain)
  have rec: "\<And>x s c e. plain_val R x \<Longrightarrow> ?rec x s c \<noteq> Some (Inl e)" by (rule Suc.IH)
  show ?case
  proof (cases ?u)
    case (JRef a)
    then have a: "a \<in> R" using u by simp
    note k = plain_graph_at(2)[OF assms a]
    show ?thesis
    proof (cases "kind (obj_at h a)")
      case (KArray xs)
      then have "list_all (plain_slot R) xs" using k by simp
      from forEach_verify_dense[of R ?rec, OF rec this]
      show ?thesis using JRef KArray
        by (auto simp: Let_def split: option.splits sum.splits)
    next
      case (KObject es)
      then have "list_all (\<lambda>e. plain_val R (snd e)) es" using k by simp
      from entries_verify_plain[of R ?rec, OF rec this]
      show ?thesis using JRef KObject
        by (auto simp: Let_def split: option.splits sum.splits)
    qed (use k in simp_all)
  qed (simp_all add: Let_def)
qed

text \<open>
  Claim C9. On a value graph made of primitives, arrays without holes and plain objects
  only (its objects are those of a set \<open>R\<close> that the references do not leave),
  \<open>verifySerializable\<close> returns the value it was given and raises no error, with more
  fuel than the heap has objects. The proof does not need the graph to be acyclic.
\<close>

theorem verifySerializable_plain_graph:
  assumes "plain_graph h R" "plain_val R v" "length h < fuel"
  shows "verifySerializable fuel vf h v preMessage = Some (Inr v)"
proof -
  have e: "ends (verifySerializable_rec fuel vf h v {} ''_'' preMessage) v {}"
    using assms(3) by (intro verifySerializable_rec_ends) (simp add: unseen_empty)
  have "\<And>e. verifySerializable_rec fuel vf h v {} ''_'' preMessage \<noteq> Some (Inl e)"
    using assms(1,2) by (rule verifySerializable_rec_plain)
  then show ?thesis using e
    by (auto simp: verifySerializable_def ends_def split: option.splits sum.splits)
qed

theorem verifySerializable_plain_graph_witness:
  "verifySerializable 3 example_verifier scenario_heap (JRef 0) None = Some (Inr (JRef 0))"
proof -
  have a: "plain_graph scenario_heap {0, 1}" by (simp add: plain_graph_def scenario_heap_def)
  have b: "plain_val {0, 1} (JRef 0)" by simp
  have c: "length scenario_heap < 3" by (simp add: scenario_heap_def)
  show ?thesis using verifySerializable_plain_graph [OF a b c] by simp
qed

end
